theory Spec2Isabelle
  imports Complex_Main "HOL-Library.Word"
begin

chapter \<open>Definitions\<close>

section \<open>Numbers and the persisted servo position\<close>

text \<open>
  A JavaScript number as \<open>parseFloat\<close> returns it: a finite value, \<open>NaN\<close>, or one of the
  two infinities. Finite values are modelled as exact rationals.
\<close>

datatype jsnum = Num rat | NaN | PosInfinity | NegInfinity

definition SERVO_MIN :: rat where "SERVO_MIN = 0"
definition SERVO_MAX :: rat where "SERVO_MAX = 270"
definition SERVO_CENTER :: rat where "SERVO_CENTER = 135"
definition SERVO_H_CHANNEL :: nat where "SERVO_H_CHANNEL = 0"
definition SERVO_V_CHANNEL :: nat where "SERVO_V_CHANNEL = 1"

text \<open>
  The state file \<open>/tmp/servo_state.txt\<close>. \<open>Unreadable\<close> stands for \<open>readFileSync\<close>
  throwing; \<open>Contents h v\<close> carries what \<open>parseFloat\<close> returns on the two comma-separated
  fields (\<open>NaN\<close> for a field that is missing or does not start with a number).
\<close>

datatype servo_file = Unreadable | Contents jsnum jsnum

record servo_pos =
  horizontal :: rat
  vertical :: rat

text \<open>\<open>Number.isFinite(h) ? Math.max(SERVO_MIN, Math.min(SERVO_MAX, h)) : SERVO_CENTER\<close>\<close>

fun read_axis :: "jsnum \<Rightarrow> rat" where
  "read_axis (Num h) = max SERVO_MIN (min SERVO_MAX h)"
| "read_axis NaN = SERVO_CENTER"
| "read_axis PosInfinity = SERVO_CENTER"
| "read_axis NegInfinity = SERVO_CENTER"

fun readServoState :: "servo_file \<Rightarrow> servo_pos" where
  "readServoState (Contents h v) = \<lparr>horizontal = read_axis h, vertical = read_axis v\<rparr>"
| "readServoState Unreadable = \<lparr>horizontal = SERVO_CENTER, vertical = SERVO_CENTER\<rparr>"

text \<open>
  \<open>writeServoState(horizontal, vertical)\<close> writes the two numbers separated by a comma; read
  back, the fields parse to the same numbers. A failed write is caught and only logged.
\<close>

definition writeServoState :: "rat \<Rightarrow> rat \<Rightarrow> servo_file" where
  "writeServoState h v = Contents (Num h) (Num v)"

section \<open>The proportional controller\<close>

definition TRACK_GAIN :: rat where "TRACK_GAIN = 70"
definition TRACK_MAX_STEP :: rat where "TRACK_MAX_STEP = 10"

text \<open>\<open>Math.round\<close> rounds to the nearest integer, halves towards plus infinity.\<close>

definition Math_round :: "rat \<Rightarrow> rat" where
  "Math_round x = of_int \<lfloor>x + 1 / 2\<rfloor>"

text \<open>\<open>rawDH = -offsetX * TRACK_GAIN\<close>\<close>

definition track_raw :: "rat \<Rightarrow> rat" where
  "track_raw offset = - offset * TRACK_GAIN"

text \<open>\<open>dH = Math.max(-TRACK_MAX_STEP, Math.min(TRACK_MAX_STEP, rawDH))\<close>\<close>

definition track_delta :: "rat \<Rightarrow> rat" where
  "track_delta offset = max (- TRACK_MAX_STEP) (min TRACK_MAX_STEP (track_raw offset))"

text \<open>\<open>newH = Math.max(SERVO_MIN, Math.min(SERVO_MAX, Math.round(state.horizontal + dH)))\<close>\<close>

definition track_target :: "rat \<Rightarrow> rat \<Rightarrow> rat" where
  "track_target pos offset = max SERVO_MIN (min SERVO_MAX (Math_round (pos + track_delta offset)))"

text \<open>A command line for the servo daemon: \<open>SET <channel> <angle>\<close> or \<open>OFF <channel>\<close>.\<close>

datatype servo_command = SET nat rat | OFF nat

section \<open>The actuator link: one persistent servo daemon\<close>

text \<open>
  A promise returned by \<open>servoCmd\<close> is identified by a number, a timer of the event loop by
  its handle, the daemon process by its process id. The settlement of a promise is
  recorded with what caused it.
\<close>

datatype outcome = Resolved string | Rejected string

datatype cause = NotReady | ByResponse nat | ByTimeout nat

text \<open>
  The closures the link creates. A response callback clears the timeout it captured and
  resolves the promise it captured; a timeout callback deletes the map entry of the id it
  captured and rejects the promise it captured; the restart timer calls
  \<open>startServoDaemon\<close>.
\<close>

record response_callback =
  cb_timeout :: nat
  cb_promise :: nat

datatype timer_callback = CommandTimeout nat nat | RestartDaemon

text \<open>
  \<open>servoSeq\<close> is a JavaScript number that is only ever incremented by one from 0; it is
  modelled as a natural number (the increment is exact below \<open>2 ^ 53\<close>).
  \<open>linkTimers\<close> are the pending timers of the event loop with the delay they were armed
  with; \<open>daemonStdin\<close> collects what was written to the daemon's standard input;
  \<open>settlements\<close> collects the calls of \<open>resolve\<close> and \<open>reject\<close>; \<open>sent\<close> records, for
  every command written, its promise, its sequence id and its timeout handle.
\<close>

record servo_link =
  servoDaemon :: "nat option"
  servoReady :: bool
  servoCallbacks :: "nat \<rightharpoonup> response_callback"
  servoSeq :: nat
  servoBuffer :: string
  linkTimers :: "nat \<rightharpoonup> nat \<times> timer_callback"
  daemonStdin :: "string list"
  settlements :: "(nat \<times> outcome \<times> cause) list"
  sent :: "(nat \<times> nat \<times> nat) list"
  linkNextPromise :: nat
  linkNextTimer :: nat
  linkNextPid :: nat

definition link_boot :: servo_link where
  "link_boot = \<lparr>servoDaemon = None, servoReady = False, servoCallbacks = Map.empty,
     servoSeq = 0, servoBuffer = [], linkTimers = Map.empty, daemonStdin = [],
     settlements = [], sent = [], linkNextPromise = 0, linkNextTimer = 0, linkNextPid = 0\<rparr>"

text \<open>Decimal rendering of a sequence id inside a template string.\<close>

definition digit_char :: "nat \<Rightarrow> char" where
  "digit_char d = char_of (48 + d)"

fun dec_digits :: "nat \<Rightarrow> nat \<Rightarrow> string" where
  "dec_digits 0 n = []"
| "dec_digits (Suc fuel) n =
     (if n < 10 then [digit_char n] else dec_digits fuel (n div 10) @ [digit_char (n mod 10)])"

definition show_nat :: "nat \<Rightarrow> string" where
  "show_nat n = dec_digits (Suc n) n"

text \<open>
  \<open>servoCmd(cmd)\<close>: the executor of the returned promise. It returns the promise and the
  new state.
\<close>

definition servoCmd :: "string \<Rightarrow> servo_link \<Rightarrow> nat \<times> servo_link" where
  "servoCmd cmd s =
     (let p = linkNextPromise s;
          s0 = s\<lparr>linkNextPromise := p + 1\<rparr>
      in if \<not> servoReady s \<or> servoDaemon s = None then
           (p, s0\<lparr>settlements := settlements s0 @
                     [(p, Rejected ''Servo daemon not ready'', NotReady)]\<rparr>)
         else
           (let ident = servoSeq s + 1;
                timeout = linkNextTimer s
            in (p, s0\<lparr>servoSeq := ident,
                      linkNextTimer := timeout + 1,
                      linkTimers := (linkTimers s)(timeout \<mapsto> (3000, CommandTimeout ident p)),
                      servoCallbacks := (servoCallbacks s)(ident \<mapsto>
                         \<lparr>cb_timeout = timeout, cb_promise = p\<rparr>),
                      daemonStdin := daemonStdin s @
                         [''SEQ:'' @ show_nat ident @ '' '' @ cmd @ [CHR 0x0A]],
                      sent := sent s @ [(p, ident, timeout)]\<rparr>)))"

text \<open>
  The line protocol. \<open>split_lines\<close> is \<open>split("\n")\<close>, \<open>trim\<close> is \<open>String.trim\<close> on the
  ASCII white space the daemon can print, \<open>match_seq\<close> is the regular expression
  \<open>/^SEQ:(\d+)\s+(.*)/\<close> with the first group read as a number.
\<close>

fun split_lines :: "string \<Rightarrow> string list" where
  "split_lines [] = [[]]"
| "split_lines (c # cs) =
     (if c = CHR 0x0A then [] # split_lines cs
      else (case split_lines cs of [] \<Rightarrow> [[c]] | l # ls \<Rightarrow> (c # l) # ls))"

definition is_space :: "char \<Rightarrow> bool" where
  "is_space c = (c \<in> set [CHR 0x09, CHR 0x0A, CHR 0x0B, CHR 0x0C, CHR 0x0D, CHR '' ''])"

definition is_digit :: "char \<Rightarrow> bool" where
  "is_digit c = ((48::nat) \<le> of_char c \<and> of_char c \<le> (57::nat))"

definition trim :: "string \<Rightarrow> string" where
  "trim s = rev (dropWhile is_space (rev (dropWhile is_space s)))"

definition digits_value :: "string \<Rightarrow> nat" where
  "digits_value ds = foldl (\<lambda>n c. 10 * n + (of_char c - (48::nat))) (0::nat) ds"

definition match_seq :: "string \<Rightarrow> (nat \<times> string) option" where
  "match_seq s =
     (if take 4 s = ''SEQ:'' then
        (let r = drop 4 s;
             ds = takeWhile is_digit r;
             r' = dropWhile is_digit r
         in if ds \<noteq> [] \<and> takeWhile is_space r' \<noteq> []
            then Some (digits_value ds, takeWhile (\<lambda>c. c \<noteq> CHR 0x0D) (dropWhile is_space r'))
            else None)
      else None)"

text \<open>The body of the \<open>for (const line of lines)\<close> loop of the stdout handler.\<close>

definition servo_line :: "string \<Rightarrow> servo_link \<Rightarrow> servo_link" where
  "servo_line line s =
     (let trimmed = trim line
      in if trimmed = [] then s
         else if trimmed = ''READY'' then s\<lparr>servoReady := True\<rparr>
         else (case match_seq trimmed of
                 None \<Rightarrow> s
               | Some (n, response) \<Rightarrow>
                   (case servoCallbacks s n of
                      None \<Rightarrow> s
                    | Some cb \<Rightarrow>
                        s\<lparr>servoCallbacks := (servoCallbacks s)(n := None),
                          linkTimers := (linkTimers s)(cb_timeout cb := None),
                          settlements := settlements s @
                            [(cb_promise cb, Resolved response, ByResponse n)]\<rparr>)))"

text \<open>The stdout \<open>data\<close> handler: all lines but the last are complete.\<close>

definition servo_stdout_data :: "string \<Rightarrow> servo_link \<Rightarrow> servo_link" where
  "servo_stdout_data d s =
     (let lines = split_lines (servoBuffer s @ d)
      in fold servo_line (butlast lines) (s\<lparr>servoBuffer := last lines\<rparr>))"

definition startServoDaemon :: "servo_link \<Rightarrow> servo_link" where
  "startServoDaemon s = s\<lparr>servoDaemon := Some (linkNextPid s), linkNextPid := linkNextPid s + 1\<rparr>"

text \<open>The \<open>exit\<close> handler of the daemon: not ready, no handle, restart after one second.\<close>

definition servo_daemon_exit :: "servo_link \<Rightarrow> servo_link" where
  "servo_daemon_exit s =
     s\<lparr>servoReady := False, servoDaemon := None,
       linkTimers := (linkTimers s)(linkNextTimer s \<mapsto> (1000, RestartDaemon)),
       linkNextTimer := linkNextTimer s + 1\<rparr>"

text \<open>A timer of the event loop fires: it leaves the pending set and its callback runs.\<close>

definition link_timer_fires :: "nat \<Rightarrow> servo_link \<Rightarrow> servo_link" where
  "link_timer_fires t s =
     (case linkTimers s t of
        None \<Rightarrow> s
      | Some (delay, RestartDaemon) \<Rightarrow> startServoDaemon (s\<lparr>linkTimers := (linkTimers s)(t := None)\<rparr>)
      | Some (delay, CommandTimeout ident p) \<Rightarrow>
          s\<lparr>linkTimers := (linkTimers s)(t := None),
            servoCallbacks := (servoCallbacks s)(ident := None),
            settlements := settlements s @
              [(p, Rejected ''Servo command timed out'', ByTimeout t)]\<rparr>)"

text \<open>What can happen to the link, in any order.\<close>

datatype link_event =
    Call string
  | StdoutData string
  | TimerFires nat
  | DaemonExit

fun link_step :: "servo_link \<Rightarrow> link_event \<Rightarrow> servo_link" where
  "link_step s (Call cmd) = snd (servoCmd cmd s)"
| "link_step s (StdoutData d) = servo_stdout_data d s"
| "link_step s (TimerFires t) = link_timer_fires t s"
| "link_step s DaemonExit = servo_daemon_exit s"

text \<open>The server starts the daemon once at boot; everything after is a run of events.\<close>

definition link_run :: "link_event list \<Rightarrow> servo_link" where
  "link_run evs = foldl link_step (startServoDaemon link_boot) evs"

subsection \<open>What the link guarantees to its callers\<close>

text \<open>
  A command that was written to the daemon is in flight while its callback is in the map,
  its timeout is armed and its promise is unsettled; it is answered once both are gone and
  the promise is settled.
\<close>

definition in_flight :: "servo_link \<Rightarrow> nat \<Rightarrow> nat \<Rightarrow> nat \<Rightarrow> bool" where
  "in_flight s p i t =
     (servoCallbacks s i = Some \<lparr>cb_timeout = t, cb_promise = p\<rparr> \<and>
      linkTimers s t = Some (3000, CommandTimeout i p) \<and>
      p \<notin> fst ` set (settlements s))"

definition answered :: "servo_link \<Rightarrow> nat \<Rightarrow> nat \<Rightarrow> nat \<Rightarrow> bool" where
  "answered s p i t =
     (servoCallbacks s i = None \<and> linkTimers s t = None \<and>
      p \<in> fst ` set (settlements s))"

fun justified :: "(nat \<times> nat \<times> nat) list \<Rightarrow> nat \<times> outcome \<times> cause \<Rightarrow> bool" where
  "justified s (p, out, NotReady) =
     (out = Rejected ''Servo daemon not ready'' \<and> p \<notin> fst ` set s)"
| "justified s (p, out, ByResponse n) =
     ((\<exists>r. out = Resolved r) \<and> (\<exists>t. (p, n, t) \<in> set s))"
| "justified s (p, out, ByTimeout t) =
     (out = Rejected ''Servo command timed out'' \<and> (\<exists>i. (p, i, t) \<in> set s))"

definition link_inv :: "servo_link \<Rightarrow> bool" where
  "link_inv s =
     (distinct (map fst (settlements s)) \<and>
      distinct (map fst (sent s)) \<and>
      distinct (map (fst \<circ> snd) (sent s)) \<and>
      distinct (map (snd \<circ> snd) (sent s)) \<and>
      (\<forall>(p, i, t) \<in> set (sent s).
          i \<le> servoSeq s \<and> p < linkNextPromise s \<and> t < linkNextTimer s \<and>
          (in_flight s p i t \<or> answered s p i t)) \<and>
      (\<forall>x \<in> set (settlements s). fst x < linkNextPromise s \<and> justified (sent s) x) \<and>
      (\<forall>i cb. servoCallbacks s i = Some cb \<longrightarrow> (cb_promise cb, i, cb_timeout cb) \<in> set (sent s)) \<and>
      (\<forall>t d i p. linkTimers s t = Some (d, CommandTimeout i p) \<longrightarrow> (p, i, t) \<in> set (sent s)) \<and>
      (\<forall>t \<in> dom (linkTimers s). t < linkNextTimer s))"

text \<open>All settlements of one promise, in the order they happened.\<close>

definition settled_by :: "servo_link \<Rightarrow> nat \<Rightarrow> (outcome \<times> cause) list" where
  "settled_by s p = map snd (filter (\<lambda>x. fst x = p) (settlements s))"

text \<open>
  A run used to exercise the theorems: the daemon reports ready, two commands are sent, the
  second is answered first, the timeout of the first fires, then its answer arrives late.
\<close>

definition link_example :: "link_event list" where
  "link_example = [StdoutData (''READY'' @ [CHR 0x0A]), Call ''SET 0 135'', Call ''SET 1 135'',
          StdoutData (''SEQ:2 OK 135'' @ [CHR 0x0A]), TimerFires 0, StdoutData (''SEQ:1 OK 135'' @ [CHR 0x0A])]"

section \<open>The camera stream: frame multiplexer and stream lifecycle\<close>

type_synonym byte = "8 word"

text \<open>
  What is written to a viewer: the multipart header with the content length, the frame
  bytes, and the closing line break whose completion callback clears the busy flag.
\<close>

datatype chunk = Header nat | Body "byte list" | Crlf

text \<open>
  A viewer is an HTTP response object in \<open>cameraClients\<close>. \<open>outstanding\<close> counts the
  frames written to it whose final write has not completed yet (completion callbacks
  registered and not yet called).
\<close>

record viewer =
  viewer_id :: nat
  busy :: bool
  written :: "chunk list"
  outstanding :: nat

text \<open>
  A request to \<open>/camera/stream\<close>: \<open>req_tracker\<close> is \<open>req.query.src === "tracker"\<close>,
  \<open>req_quality\<close> the quality parameter if one was given.
\<close>

record request =
  req_tracker :: bool
  req_quality :: "string option"

text \<open>
  A request handler parked at an \<open>await\<close>: the response it will attach, whether it is a UI
  client, and the quality it computed before the first \<open>await\<close>.
\<close>

record parked =
  parked_id :: nat
  parked_ui :: bool
  parked_quality :: string

datatype cam_timer = IdleStop | ReleaseDelay parked | StartupCheck parked

datatype cam_action = Spawn nat string | Sigterm nat | ShellKill "nat option"

text \<open>
  The module state of the camera part, the two things of the operating system it looks at
  (the pid file and the live producer processes), the pending timers (handle, delay,
  callback) and \<open>exec\<close> callbacks
  of the event loop, the open requests with their \<open>isUiClient\<close> flag, the HTTP status sent
  per request, the process actions taken, and the frames broadcast so far.
\<close>

record camera =
  cameraProcess :: "nat option"
  cameraClients :: "viewer list"
  frameBuffer :: "byte list"
  latestFrame :: "byte list option"
  currentQuality :: string
  uiStreamClients :: nat
  cameraIdleTimer :: "nat option"
  pidFile :: "nat option"
  running :: "nat list"
  camTimers :: "(nat \<times> nat \<times> cam_timer) list"
  killsPending :: "(nat \<times> parked) list"
  connections :: "(nat \<times> bool) list"
  replies :: "(nat \<times> nat) list"
  camLog :: "cam_action list"
  broadcasts :: "byte list list"
  camNextPid :: nat
  camNextTimer :: nat
  camNextExec :: nat
  camNextReq :: nat

definition cam_boot :: camera where
  "cam_boot = \<lparr>cameraProcess = None, cameraClients = [], frameBuffer = [], latestFrame = None,
     currentQuality = ''low'', uiStreamClients = 0, cameraIdleTimer = None, pidFile = None,
     running = [], camTimers = [], killsPending = [], connections = [], replies = [],
     camLog = [], broadcasts = [], camNextPid = 1, camNextTimer = 0, camNextExec = 0,
     camNextReq = 0\<rparr>"

definition CAMERA_IDLE_GRACE_MS :: nat where "CAMERA_IDLE_GRACE_MS = 5000"

subsection \<open>broadcastFrame\<close>

text \<open>\<open>Buffer.indexOf\<close> for a two-byte pattern, from the start and from an offset.\<close>

fun indexOf :: "byte list \<Rightarrow> byte \<Rightarrow> byte \<Rightarrow> nat option" where
  "indexOf (x # y # zs) a b =
     (if x = a \<and> y = b then Some 0 else map_option Suc (indexOf (y # zs) a b))"
| "indexOf _ a b = None"

definition indexOf_from :: "byte list \<Rightarrow> byte \<Rightarrow> byte \<Rightarrow> nat \<Rightarrow> nat option" where
  "indexOf_from buf a b start = map_option (\<lambda>i. i + start) (indexOf (drop start buf) a b)"

text \<open>The body of \<open>for (const client of cameraClients)\<close>.\<close>

definition send_frame :: "byte list \<Rightarrow> viewer \<Rightarrow> viewer" where
  "send_frame frame client =
     (if busy client then client
      else client\<lparr>busy := True,
                  written := written client @ [Header (length frame), Body frame, Crlf],
                  outstanding := outstanding client + 1\<rparr>)"

text \<open>
  One round of the \<open>while (true)\<close> loop: \<open>None\<close> when it breaks, otherwise the state after the
  frame was cut out of the buffer, stored as latest frame and written to the viewers.
\<close>

definition frame_round :: "camera \<Rightarrow> camera option" where
  "frame_round s =
     (case indexOf (frameBuffer s) 0xFF 0xD8 of
        None \<Rightarrow> None
      | Some startIdx \<Rightarrow>
          (case indexOf_from (frameBuffer s) 0xFF 0xD9 startIdx of
             None \<Rightarrow> None
           | Some endIdx \<Rightarrow>
               (let frame = take (endIdx + 2 - startIdx) (drop startIdx (frameBuffer s))
                in Some (s\<lparr>frameBuffer := drop (endIdx + 2) (frameBuffer s),
                           latestFrame := Some frame,
                           cameraClients := map (send_frame frame) (cameraClients s),
                           broadcasts := broadcasts s @ [frame]\<rparr>))))"

function frame_loop :: "camera \<Rightarrow> camera" where
  "frame_loop s = (case frame_round s of None \<Rightarrow> s | Some s' \<Rightarrow> frame_loop s')"
  by pat_completeness auto
termination
proof (relation "measure (\<lambda>s. length (frameBuffer s))")
  show "wf (measure (\<lambda>s. length (frameBuffer s)))" by simp
next
  fix s s' assume a: "frame_round s = Some s'"
  have nonempty: "indexOf xs a b = Some i \<Longrightarrow> xs \<noteq> []" for xs :: "byte list" and a b i
    by (cases xs) auto
  from a have "frameBuffer s \<noteq> [] \<and> (\<exists>n. frameBuffer s' = drop (n + 2) (frameBuffer s))"
    by (auto simp: frame_round_def Let_def split: option.splits dest: nonempty)
  then show "(s', s) \<in> measure (\<lambda>s. length (frameBuffer s))"
    by auto
qed

declare frame_loop.simps [simp del]

definition broadcastFrame :: "byte list \<Rightarrow> camera \<Rightarrow> camera" where
  "broadcastFrame chunk s = frame_loop (s\<lparr>frameBuffer := frameBuffer s @ chunk\<rparr>)"

text \<open>A frame as the claim describes it: it opens with FF D8 and closes with FF D9.\<close>

definition jpeg_run :: "byte list \<Rightarrow> bool" where
  "jpeg_run f = (take 2 f = [0xFF, 0xD8] \<and> drop (length f - 2) f = [0xFF, 0xD9])"

subsection \<open>Producer process: stop, start, exit\<close>

text \<open>\<open>isProcessRunning(pid)\<close>: false for a missing pid, else whether the process is alive.\<close>

definition isProcessRunning :: "camera \<Rightarrow> nat option \<Rightarrow> bool" where
  "isProcessRunning s pid = (case pid of None \<Rightarrow> False | Some n \<Rightarrow> n \<noteq> 0 \<and> n \<in> set (running s))"

definition to_lower :: "char \<Rightarrow> char" where
  "to_lower c = (if (65::nat) \<le> of_char c \<and> of_char c \<le> (90::nat)
                 then char_of (of_char c + (32::nat)) else c)"

definition QUALITY_PRESETS :: "string list" where
  "QUALITY_PRESETS = [''veryhigh'', ''high'', ''medium'', ''low'', ''verylow'']"

text \<open>
  \<open>QUALITY_PRESETS[quality] || QUALITY_PRESETS[currentQuality] || QUALITY_PRESETS.low\<close>,
  as the name of the preset chosen.
\<close>

definition pick_preset :: "string \<Rightarrow> string \<Rightarrow> string" where
  "pick_preset quality current =
     (if quality \<in> set QUALITY_PRESETS then quality
      else if current \<in> set QUALITY_PRESETS then current else ''low'')"

text \<open>
  The part of the stream route after the restart: count the UI client, send the response
  head, register the viewer, push the latest frame if there is one, and listen for the end
  of the request.
\<close>

definition attach_viewer :: "parked \<Rightarrow> camera \<Rightarrow> camera" where
  "attach_viewer k s =
     (let s1 = (if parked_ui k then s\<lparr>uiStreamClients := uiStreamClients s + 1\<rparr> else s);
          res = \<lparr>viewer_id = parked_id k, busy = False, written = [], outstanding = 0\<rparr>;
          res' = (case latestFrame s1 of
                    None \<Rightarrow> res
                  | Some frame \<Rightarrow>
                      res\<lparr>busy := True,
                          written := [Header (length frame), Body frame, Crlf],
                          outstanding := 1\<rparr>)
      in s1\<lparr>replies := replies s1 @ [(parked_id k, 200)],
            cameraClients := cameraClients s1 @ [res'],
            connections := connections s1 @ [(parked_id k, parked_ui k)]\<rparr>)"

text \<open>
  \<open>startCameraStream(quality)\<close> up to its 500 ms timer; the promise is settled when the
  timer fires.
\<close>

definition startCameraStream :: "parked \<Rightarrow> camera \<Rightarrow> camera" where
  "startCameraStream k s =
     (let quality = parked_quality k;
          preset = pick_preset quality (currentQuality s);
          pid = camNextPid s
      in s\<lparr>currentQuality := (if quality \<noteq> [] then quality else currentQuality s),
            frameBuffer := [],
            cameraClients := [],
            latestFrame := None,
            cameraProcess := Some pid,
            running := running s @ [pid],
            camNextPid := pid + 1,
            camLog := camLog s @ [Spawn pid preset],
            pidFile := Some pid,
            camTimers := camTimers s @ [(camNextTimer s, 500, StartupCheck k)],
            camNextTimer := camNextTimer s + 1\<rparr>)"

text \<open>
  \<open>stopCameraStream()\<close> up to its first callback. With nothing to stop it resolves at once
  and the route goes on to \<open>startCameraStream\<close>; otherwise the handle is sent SIGTERM and
  dropped, and the shell \<open>kill\<close> of the pid read from the file is under way.
\<close>

definition stopCameraStream :: "parked \<Rightarrow> camera \<Rightarrow> camera" where
  "stopCameraStream k s =
     (let pid = pidFile s
      in if \<not> isProcessRunning s pid \<and> cameraProcess s = None then startCameraStream k s
         else
           (let s1 = (case cameraProcess s of
                        None \<Rightarrow> s
                      | Some h \<Rightarrow> s\<lparr>camLog := camLog s @ [Sigterm h], cameraProcess := None\<rparr>)
            in s1\<lparr>camLog := camLog s1 @ [ShellKill pid],
                  killsPending := killsPending s1 @ [(camNextExec s1, k)],
                  camNextExec := camNextExec s1 + 1\<rparr>))"

text \<open>The callback of the shell \<open>kill\<close>: clean up, then wait 600 ms before resolving.\<close>

definition kill_done :: "nat \<Rightarrow> camera \<Rightarrow> camera" where
  "kill_done e s =
     (case map_of (killsPending s) e of
        None \<Rightarrow> s
      | Some k \<Rightarrow>
          s\<lparr>killsPending := filter (\<lambda>x. fst x \<noteq> e) (killsPending s),
            pidFile := None,
            cameraClients := [],
            frameBuffer := [],
            latestFrame := None,
            camTimers := camTimers s @ [(camNextTimer s, 600, ReleaseDelay k)],
            camNextTimer := camNextTimer s + 1\<rparr>)"

text \<open>The \<open>exit\<close> handler that \<open>startCameraStream\<close> puts on the producer process.\<close>

definition camera_exit_handler :: "camera \<Rightarrow> camera" where
  "camera_exit_handler s =
     s\<lparr>pidFile := None, cameraProcess := None, cameraClients := [], frameBuffer := [],
       latestFrame := None\<rparr>"

text \<open>A live producer process ends: the operating system forgets it and the handler runs.\<close>

definition producer_exit :: "nat \<Rightarrow> camera \<Rightarrow> camera" where
  "producer_exit pid s =
     (if pid \<in> set (running s)
      then camera_exit_handler (s\<lparr>running := filter (\<lambda>p. p \<noteq> pid) (running s)\<rparr>)
      else s)"

subsection \<open>The stream route\<close>

text \<open>\<open>String(req.query.quality || currentQuality || "low").toLowerCase()\<close>\<close>

definition requested_quality :: "request \<Rightarrow> string \<Rightarrow> string" where
  "requested_quality r current =
     map to_lower
       (let given = (case req_quality r of None \<Rightarrow> [] | Some q \<Rightarrow> q)
        in if given \<noteq> [] then given else if current \<noteq> [] then current else ''low'')"

text \<open>
  \<open>app.get("/camera/stream")\<close> up to its first \<open>await\<close>, or to its end when it does not
  need one. The response object is identified by a fresh number.
\<close>

definition stream_request :: "request \<Rightarrow> camera \<Rightarrow> camera" where
  "stream_request r s0 =
     (let ident = camNextReq s0;
          s = s0\<lparr>camNextReq := ident + 1\<rparr>;
          isUiClient = \<not> req_tracker r
      in if isUiClient then
           (let s1 = (case cameraIdleTimer s of
                        None \<Rightarrow> s
                      | Some t \<Rightarrow> s\<lparr>camTimers := filter (\<lambda>x. fst x \<noteq> t) (camTimers s),
                                   cameraIdleTimer := None\<rparr>);
                quality = requested_quality r (currentQuality s1);
                k = \<lparr>parked_id = ident, parked_ui = True, parked_quality = quality\<rparr>;
                needsRestart = (cameraProcess s1 = None \<or> \<not> isProcessRunning s1 (pidFile s1) \<or>
                                quality \<noteq> currentQuality s1)
            in if needsRestart then stopCameraStream k s1 else attach_viewer k s1)
         else
           (if \<not> isProcessRunning s (pidFile s) \<or> cameraProcess s = None
            then s\<lparr>replies := replies s @ [(ident, 503)]\<rparr>
            else attach_viewer \<lparr>parked_id = ident, parked_ui = False, parked_quality = []\<rparr> s))"

text \<open>\<open>cleanup()\<close> of the response \<open>ident\<close>, with the \<open>isUiClient\<close> its closure captured.\<close>

definition cleanup :: "nat \<Rightarrow> bool \<Rightarrow> camera \<Rightarrow> camera" where
  "cleanup ident isUiClient s =
     (let s1 = s\<lparr>cameraClients := filter (\<lambda>c. viewer_id c \<noteq> ident) (cameraClients s)\<rparr>
      in if isUiClient then
           (let s2 = s1\<lparr>uiStreamClients := uiStreamClients s1 - 1\<rparr>
            in if uiStreamClients s2 = 0
               then s2\<lparr>cameraIdleTimer := Some (camNextTimer s2),
                       camTimers := camTimers s2 @ [(camNextTimer s2, CAMERA_IDLE_GRACE_MS, IdleStop)],
                       camNextTimer := camNextTimer s2 + 1\<rparr>
               else s2)
         else s1)"

text \<open>The request's \<open>close\<close> event (once per request) and its \<open>error\<close> event.\<close>

definition request_close :: "nat \<Rightarrow> camera \<Rightarrow> camera" where
  "request_close ident s =
     (case map_of (connections s) ident of
        None \<Rightarrow> s
      | Some ui \<Rightarrow> (cleanup ident ui s)\<lparr>connections := filter (\<lambda>x. fst x \<noteq> ident) (connections s)\<rparr>)"

definition request_error :: "nat \<Rightarrow> camera \<Rightarrow> camera" where
  "request_error ident s =
     (case map_of (connections s) ident of
        None \<Rightarrow> s
      | Some ui \<Rightarrow> cleanup ident ui s)"

text \<open>The completion callback of the final write of a frame: \<open>client.busy = false\<close>.\<close>

definition write_done :: "nat \<Rightarrow> camera \<Rightarrow> camera" where
  "write_done ident s =
     s\<lparr>cameraClients := map (\<lambda>c. if viewer_id c = ident \<and> 0 < outstanding c
                                  then c\<lparr>busy := False, outstanding := outstanding c - 1\<rparr>
                                  else c) (cameraClients s)\<rparr>"

text \<open>
  The callback of the idle timer, armed by \<open>cleanup\<close>: the producer is sent SIGTERM only if
  it exists and the UI count is still zero.
\<close>

definition idle_stop :: "camera \<Rightarrow> camera" where
  "idle_stop s =
     (let s2 = s\<lparr>cameraIdleTimer := None\<rparr>
      in case cameraProcess s2 of
           None \<Rightarrow> s2
         | Some h \<Rightarrow> if uiStreamClients s2 = 0
                     then s2\<lparr>camLog := camLog s2 @ [Sigterm h]\<rparr> else s2)"

text \<open>
  The callback of the 500 ms timer of \<open>startCameraStream\<close>, and the stream route after its
  \<open>await\<close>: attach the viewer if the producer is running, answer 503 otherwise.
\<close>

definition startup_check :: "parked \<Rightarrow> camera \<Rightarrow> camera" where
  "startup_check k s =
     (if isProcessRunning s (cameraProcess s) then attach_viewer k s
      else s\<lparr>replies := replies s @ [(parked_id k, 503)]\<rparr>)"

fun cam_timer_callback :: "cam_timer \<Rightarrow> camera \<Rightarrow> camera" where
  "cam_timer_callback IdleStop s = idle_stop s"
| "cam_timer_callback (ReleaseDelay k) s = startCameraStream k s"
| "cam_timer_callback (StartupCheck k) s = startup_check k s"

text \<open>A timer of the camera part fires: it leaves the pending list and its callback runs.\<close>

definition cam_timer_fires :: "nat \<Rightarrow> camera \<Rightarrow> camera" where
  "cam_timer_fires t s =
     (case map_of (camTimers s) t of
        None \<Rightarrow> s
      | Some (delay, cb) \<Rightarrow>
          cam_timer_callback cb (s\<lparr>camTimers := filter (\<lambda>x. fst x \<noteq> t) (camTimers s)\<rparr>))"

datatype cam_event =
    StreamRequest request
  | KillDone nat
  | CamTimerFires nat
  | ProducerData "byte list"
  | ProducerExit nat
  | WriteDone nat
  | RequestClose nat
  | RequestError nat

fun cam_step :: "camera \<Rightarrow> cam_event \<Rightarrow> camera" where
  "cam_step s (StreamRequest r) = stream_request r s"
| "cam_step s (KillDone e) = kill_done e s"
| "cam_step s (CamTimerFires t) = cam_timer_fires t s"
| "cam_step s (ProducerData chunk) = broadcastFrame chunk s"
| "cam_step s (ProducerExit pid) = producer_exit pid s"
| "cam_step s (WriteDone ident) = write_done ident s"
| "cam_step s (RequestClose ident) = request_close ident s"
| "cam_step s (RequestError ident) = request_error ident s"

definition cam_run :: "cam_event list \<Rightarrow> camera" where
  "cam_run evs = foldl cam_step cam_boot evs"

subsection \<open>Viewers and back-pressure\<close>

text \<open>
  A viewer is in order when at most one frame is being written to it and its busy flag is
  set exactly while that write is under way. \<open>just_attached\<close> describes the viewer the
  stream route adds; \<open>clients_step\<close> describes how the routes other than the frame
  broadcast and the write callback change the viewer set: they empty it, add one viewer, or
  remove viewers.
\<close>

definition viewer_ok :: "viewer \<Rightarrow> bool" where
  "viewer_ok v = (outstanding v \<le> 1 \<and> busy v = (outstanding v = 1))"

definition just_attached :: "viewer \<Rightarrow> bool" where
  "just_attached v =
     (if busy v then outstanding v = 1 \<and> (\<exists>f. written v = [Header (length f), Body f, Crlf])
      else outstanding v = 0 \<and> written v = [])"

definition clients_step :: "viewer list \<Rightarrow> viewer list \<Rightarrow> bool" where
  "clients_step cs cs' =
     (cs' = [] \<or> (\<exists>v. cs' = cs @ [v] \<and> just_attached v) \<or> set cs' \<subseteq> set cs)"

text \<open>Two small frames, a UI request, and the state with one attached UI viewer.\<close>

definition jpegA :: "byte list" where "jpegA = [0xFF, 0xD8, 1, 2, 3, 0xFF, 0xD9]"
definition jpegB :: "byte list" where "jpegB = [0xFF, 0xD8, 7, 0xFF, 0xD9]"

definition ui_request :: "string option \<Rightarrow> cam_event" where
  "ui_request q = StreamRequest \<lparr>req_tracker = False, req_quality = q\<rparr>"

definition one_viewer :: camera where
  "one_viewer = cam_run [ui_request (Some ''low''), CamTimerFires 0]"

subsection \<open>Lifecycle and frame traffic\<close>

text \<open>
  Frame traffic is what the producer and the viewers' sockets do on their own: a chunk of
  producer output, and the completion of a final write. \<open>lifecycle\<close> forgets the fields
  frame traffic works on and keeps the rest: the producer handle, the counts, the timers,
  the log of process actions.
\<close>

definition frame_traffic :: "cam_event \<Rightarrow> bool" where
  "frame_traffic e = (case e of ProducerData c \<Rightarrow> True | WriteDone i \<Rightarrow> True | _ \<Rightarrow> False)"

definition lifecycle :: "camera \<Rightarrow> camera" where
  "lifecycle s = s\<lparr>cameraClients := [], frameBuffer := [], latestFrame := None, broadcasts := []\<rparr>"

text \<open>
  The quality active after a first UI request on a fresh server, and what it means for a
  second request to ask for that quality again (by naming it, in any letter case, or by
  naming none).
\<close>

definition first_quality :: "string option \<Rightarrow> string" where
  "first_quality q = requested_quality \<lparr>req_tracker = False, req_quality = q\<rparr> ''low''"

definition same_quality :: "string option \<Rightarrow> string option \<Rightarrow> bool" where
  "same_quality q q' =
     (requested_quality \<lparr>req_tracker = False, req_quality = q'\<rparr> (first_quality q) = first_quality q)"

text \<open>States of the scenario "attach, startup check, detach, attach again".\<close>

definition after_first :: "string option \<Rightarrow> camera" where
  "after_first q = \<lparr>cameraProcess = Some 1, cameraClients = [], frameBuffer = [], latestFrame = None,
     currentQuality = first_quality q, uiStreamClients = 0, cameraIdleTimer = None, pidFile = Some 1,
     running = [1],
     camTimers = [(0, 500, StartupCheck \<lparr>parked_id = 0, parked_ui = True, parked_quality = first_quality q\<rparr>)],
     killsPending = [], connections = [], replies = [],
     camLog = [Spawn 1 (pick_preset (first_quality q) ''low'')], broadcasts = [], camNextPid = 2,
     camNextTimer = 1, camNextExec = 0, camNextReq = 1\<rparr>"

definition viewer0 :: viewer where
  "viewer0 = \<lparr>viewer_id = 0, busy = False, written = [], outstanding = 0\<rparr>"

definition viewer1 :: viewer where
  "viewer1 = \<lparr>viewer_id = 1, busy = False, written = [], outstanding = 0\<rparr>"

text \<open>
  Two runs. In the first a viewer attaches, leaves and comes back asking for no particular
  quality, with frames arriving in between. In the second the viewer comes back asking
  for another quality; the old producer exits after its SIGTERM, the shell kill returns,
  and the two timers of the restart fire.
\<close>

definition reattach_example :: "cam_event list" where
  "reattach_example =
     [ui_request (Some ''Low''), ProducerData jpegA, CamTimerFires 0, ProducerData jpegB,
      WriteDone 0, RequestClose 0, ui_request None]"

definition restart_example :: "cam_event list" where
  "restart_example =
     [ui_request (Some ''low''), CamTimerFires 0, RequestClose 0, ui_request (Some ''high''),
      ProducerExit 1, KillDone 0, CamTimerFires 2, CamTimerFires 3]"

section \<open>The motion-tracking controller\<close>

text \<open>
  One line of the detector's output after \<open>JSON.parse\<close>: the fields the handler looks at.
  \<open>msg_ready\<close>, \<open>msg_error\<close>, \<open>msg_active\<close> and \<open>msg_refine\<close> say whether the field is
  present and truthy; \<open>msg_cx\<close> and \<open>msg_cy\<close> are the normalized centroid. A line that is
  blank or does not parse is \<open>None\<close>: the loop skips it. A data event carries the complete
  lines it brings; the buffering of a partial last line is not modelled.
\<close>

record tracker_msg =
  msg_ready :: bool
  msg_error :: bool
  msg_active :: bool
  msg_cx :: rat
  msg_cy :: rat
  msg_refine :: bool

text \<open>
  A data handler parked at \<open>await Promise.all(cmds)\<close>: the promises of \<open>cmds\<close>, those of
  them not yet resolved, the target it computed, the message it is working on and the
  lines it has not looked at yet.
\<close>

record parked_move =
  aw_cmds :: "nat list"
  aw_waiting :: "nat list"
  aw_newH :: rat
  aw_newV :: rat
  aw_msg :: tracker_msg
  aw_rest :: "tracker_msg option list"

datatype tracker_action = Persist rat rat | RunFaceTrack | ServoError | KillDetector nat

text \<open>
  The module state of the controller. \<open>faceTrackRunning\<close> is
  \<open>faceTrackJob && faceTrackJob.status === "running"\<close>; \<open>servoFile\<close> is the persisted
  position; \<open>issued\<close> are the calls of \<open>servoCmd\<close> with the promise each returned;
  \<open>offTimers\<close> are the pending 500 ms timers of \<open>servoSetCmd\<close>.
\<close>

record tracker =
  motionTrackerProcess :: "nat option"
  motionTrackingActive :: bool
  servoTrackingEnabled :: bool
  motionTrackerMoveInFlight :: bool
  faceTrackRunning :: bool
  servoVOffTimer :: "nat option"
  servoFile :: servo_file
  awaiting :: "parked_move list"
  offTimers :: "nat list"
  issued :: "(nat \<times> servo_command) list"
  trkLog :: "tracker_action list"
  trkNextPromise :: nat
  trkNextTimer :: nat
  trkNextPid :: nat

text \<open>At boot the server writes the rest position to the state file.\<close>

definition trk_boot :: tracker where
  "trk_boot = \<lparr>motionTrackerProcess = None, motionTrackingActive = False,
     servoTrackingEnabled = False, motionTrackerMoveInFlight = False, faceTrackRunning = False,
     servoVOffTimer = None, servoFile = writeServoState SERVO_CENTER SERVO_CENTER, awaiting = [],
     offTimers = [], issued = [], trkLog = [], trkNextPromise = 0, trkNextTimer = 0,
     trkNextPid = 1\<rparr>"

text \<open>A call of \<open>servoCmd\<close> seen from the controller: a command goes out, a promise comes back.\<close>

definition issue :: "servo_command \<Rightarrow> tracker \<Rightarrow> nat \<times> tracker" where
  "issue cmd s =
     (trkNextPromise s,
      s\<lparr>issued := issued s @ [(trkNextPromise s, cmd)], trkNextPromise := trkNextPromise s + 1\<rparr>)"

text \<open>
  \<open>servoSetCmd(channel, angle)\<close>: for the vertical channel a pending delayed OFF is
  cancelled and a new one is armed; the command text is \<open>SET channel angle\<close> either way.
\<close>

definition servoSetCmd :: "nat \<Rightarrow> rat \<Rightarrow> tracker \<Rightarrow> servo_command \<times> tracker" where
  "servoSetCmd channel angle s =
     (if channel \<noteq> SERVO_V_CHANNEL then (SET channel angle, s)
      else
        (let s1 = (case servoVOffTimer s of
                     None \<Rightarrow> s
                   | Some t \<Rightarrow> s\<lparr>offTimers := removeAll t (offTimers s), servoVOffTimer := None\<rparr>)
         in (SET channel angle,
             s1\<lparr>servoVOffTimer := Some (trkNextTimer s1),
                offTimers := offTimers s1 @ [trkNextTimer s1],
                trkNextTimer := trkNextTimer s1 + 1\<rparr>)))"

text \<open>The delayed OFF fires: the handle is dropped and \<open>OFF 1\<close> is sent, errors only logged.\<close>

definition off_timer_fires :: "nat \<Rightarrow> tracker \<Rightarrow> tracker" where
  "off_timer_fires t s =
     (if t \<in> set (offTimers s)
      then snd (issue (OFF SERVO_V_CHANNEL) (s\<lparr>offTimers := removeAll t (offTimers s), servoVOffTimer := None\<rparr>))
      else s)"

text \<open>The face-detection refinement at the end of the loop body.\<close>

definition refine_step :: "tracker_msg \<Rightarrow> tracker \<Rightarrow> tracker" where
  "refine_step m s =
     (if msg_refine m \<and> \<not> faceTrackRunning s
      then s\<lparr>faceTrackRunning := True, trkLog := trkLog s @ [RunFaceTrack]\<rparr>
      else s)"

text \<open>
  The proportional controller inside the loop body, for an active detection: the offsets,
  the clamped targets read against the persisted position, and a \<open>servoCmd\<close> call for
  each axis whose target differs from the current position. It yields the promises of the
  commands sent and the targets.
\<close>

definition plan_move :: "tracker_msg \<Rightarrow> tracker \<Rightarrow> nat list \<times> rat \<times> rat \<times> tracker" where
  "plan_move m s =
     (let offsetX = msg_cx m - 1 / 2;
          offsetY = msg_cy m - 1 / 2;
          state = readServoState (servoFile s);
          newH = track_target (horizontal state) offsetX;
          newV = track_target (vertical state) offsetY;
          (cmdsH, s1) = (if newH \<noteq> horizontal state
                         then (let (p, s') = issue (SET SERVO_H_CHANNEL newH) s in ([p], s'))
                         else ([], s));
          (cmdsV, s2) = (if newV \<noteq> vertical state
                         then (let (c, s') = servoSetCmd SERVO_V_CHANNEL newV s1;
                                   (p, s'') = issue c s'
                               in ([p], s''))
                         else ([], s1))
      in (cmdsH @ cmdsV, newH, newV, s2))"

text \<open>
  The \<open>for (const raw of lines)\<close> loop of the stdout handler, from the current line on. It
  ends at the end of the lines or parks at the \<open>await\<close>.
\<close>

fun handle_lines :: "tracker \<Rightarrow> tracker_msg option list \<Rightarrow> tracker" where
  "handle_lines s [] = s"
| "handle_lines s (None # rest) = handle_lines s rest"
| "handle_lines s (Some m # rest) =
     (if msg_ready m then handle_lines s rest
      else if msg_error m then handle_lines s rest
      else if \<not> msg_active m then handle_lines s rest
      else if \<not> servoTrackingEnabled s then handle_lines s rest
      else if motionTrackerMoveInFlight s then handle_lines s rest
      else
        (case plan_move m s of
           (cmds, newH, newV, s2) \<Rightarrow>
             if cmds \<noteq> [] then
               (if \<not> servoTrackingEnabled s2 then handle_lines s2 rest
                else s2\<lparr>motionTrackerMoveInFlight := True,
                        awaiting := awaiting s2 @
                          [\<lparr>aw_cmds = cmds, aw_waiting = cmds, aw_newH = newH, aw_newV = newV,
                            aw_msg = m, aw_rest = rest\<rparr>]\<rparr>)
             else handle_lines (refine_step m s2) rest))"

text \<open>
  The handler goes on after the \<open>await\<close>. When all commands were acknowledged the position
  is persisted if tracking is still enabled; when one was rejected the error is logged.
  Either way the in-flight flag is cleared, the refinement step runs and the loop goes on.
\<close>

definition resume_ok :: "parked_move \<Rightarrow> tracker \<Rightarrow> tracker" where
  "resume_ok k s =
     (let s1 = (if servoTrackingEnabled s
                then s\<lparr>servoFile := writeServoState (aw_newH k) (aw_newV k),
                       trkLog := trkLog s @ [Persist (aw_newH k) (aw_newV k)]\<rparr>
                else s);
          s2 = s1\<lparr>motionTrackerMoveInFlight := False\<rparr>
      in handle_lines (refine_step (aw_msg k) s2) (aw_rest k))"

definition resume_failed :: "parked_move \<Rightarrow> tracker \<Rightarrow> tracker" where
  "resume_failed k s =
     (let s1 = s\<lparr>trkLog := trkLog s @ [ServoError]\<rparr>;
          s2 = s1\<lparr>motionTrackerMoveInFlight := False\<rparr>
      in handle_lines (refine_step (aw_msg k) s2) (aw_rest k))"

text \<open>
  The actuator link settles a promise. \<open>Promise.all\<close> is fulfilled when the last of its
  promises is resolved and rejected as soon as one of them is.
\<close>

definition cmd_resolved :: "nat \<Rightarrow> tracker \<Rightarrow> tracker" where
  "cmd_resolved p s =
     (let hit = (\<lambda>k. p \<in> set (aw_waiting k));
          strike = (\<lambda>k. k\<lparr>aw_waiting := removeAll p (aw_waiting k)\<rparr>);
          ready = filter (\<lambda>k. hit k \<and> aw_waiting (strike k) = []) (awaiting s);
          still = map (\<lambda>k. if hit k then strike k else k)
                    (filter (\<lambda>k. \<not> (hit k \<and> aw_waiting (strike k) = [])) (awaiting s))
      in fold resume_ok ready (s\<lparr>awaiting := still\<rparr>))"

definition cmd_rejected :: "nat \<Rightarrow> tracker \<Rightarrow> tracker" where
  "cmd_rejected p s =
     (let hit = (\<lambda>k. p \<in> set (aw_waiting k))
      in fold resume_failed (filter hit (awaiting s))
           (s\<lparr>awaiting := filter (\<lambda>k. \<not> hit k) (awaiting s)\<rparr>))"

definition stopMotionTracking :: "tracker \<Rightarrow> tracker" where
  "stopMotionTracking s =
     (let s1 = (case motionTrackerProcess s of
                  None \<Rightarrow> s
                | Some pid \<Rightarrow> s\<lparr>trkLog := trkLog s @ [KillDetector pid],
                                motionTrackerProcess := None\<rparr>)
      in s1\<lparr>motionTrackingActive := False, motionTrackerMoveInFlight := False\<rparr>)"

definition startMotionTracking :: "tracker \<Rightarrow> tracker" where
  "startMotionTracking s =
     (case motionTrackerProcess s of
        Some pid \<Rightarrow> s
      | None \<Rightarrow> s\<lparr>motionTrackerProcess := Some (trkNextPid s), trkNextPid := trkNextPid s + 1,
                   motionTrackingActive := True\<rparr>)"

text \<open>The \<open>exit\<close> handler of the detector process.\<close>

definition tracker_exit :: "tracker \<Rightarrow> tracker" where
  "tracker_exit s = s\<lparr>motionTrackerProcess := None, motionTrackingActive := False\<rparr>"

text \<open>
  What can happen to the controller. \<open>ServoEnable\<close> and \<open>ServoDisable\<close> are the two routes
  that set the flag; \<open>FaceTrackDone\<close> is the end of a face-detection pass, which always
  clears it; \<open>FileWritten\<close> is any other route writing the state file.
\<close>

datatype trk_event =
    TrackerData "tracker_msg option list"
  | CmdResolved nat
  | CmdRejected nat
  | StopTracking
  | StartTracking
  | TrackerExit
  | TrackerSpawnError
  | ServoEnable
  | ServoDisable
  | FaceTrackDone
  | OffTimerFires nat
  | FileWritten servo_file

fun trk_step :: "tracker \<Rightarrow> trk_event \<Rightarrow> tracker" where
  "trk_step s (TrackerData lines) = handle_lines s lines"
| "trk_step s (CmdResolved p) = cmd_resolved p s"
| "trk_step s (CmdRejected p) = cmd_rejected p s"
| "trk_step s StopTracking = stopMotionTracking s"
| "trk_step s StartTracking = startMotionTracking s"
| "trk_step s TrackerExit = tracker_exit s"
| "trk_step s TrackerSpawnError = stopMotionTracking s"
| "trk_step s ServoEnable = s\<lparr>servoTrackingEnabled := True\<rparr>"
| "trk_step s ServoDisable = s\<lparr>servoTrackingEnabled := False\<rparr>"
| "trk_step s FaceTrackDone = s\<lparr>servoTrackingEnabled := False, faceTrackRunning := False\<rparr>"
| "trk_step s (OffTimerFires t) = off_timer_fires t s"
| "trk_step s (FileWritten f) = s\<lparr>servoFile := f\<rparr>"

definition trk_run :: "trk_event list \<Rightarrow> tracker" where
  "trk_run evs = foldl trk_step trk_boot evs"

text \<open>
  A run in which \<open>stopMotionTracking\<close> never runs while a handler is parked at its
  \<open>await\<close>.
\<close>

definition is_stop :: "trk_event \<Rightarrow> bool" where
  "is_stop e = (e = StopTracking \<or> e = TrackerSpawnError)"

fun quiet_stops :: "tracker \<Rightarrow> trk_event list \<Rightarrow> bool" where
  "quiet_stops s [] = True"
| "quiet_stops s (e # es) = ((is_stop e \<longrightarrow> awaiting s = []) \<and> quiet_stops (trk_step s e) es)"

text \<open>A detection at the given centroid, and nothing else in the message.\<close>

definition detection :: "rat \<Rightarrow> rat \<Rightarrow> tracker_msg option" where
  "detection x y = Some \<lparr>msg_ready = False, msg_error = False, msg_active = True,
     msg_cx = x, msg_cy = y, msg_refine = False\<rparr>"

subsection \<open>What the loop and the acknowledgments do to the state\<close>

text \<open>
  \<open>loop_effect s s'\<close> is what one run of the handler loop can do: it never touches the state
  file or the enable flag, it only adds to the commands issued, it does nothing at all to
  the commands and the parked handlers while the in-flight flag is set, and it either
  leaves the parked handlers and the flag alone or parks itself with the flag set.
\<close>

definition loop_effect :: "tracker \<Rightarrow> tracker \<Rightarrow> bool" where
  "loop_effect s s' =
     (servoFile s' = servoFile s \<and>
      servoTrackingEnabled s' = servoTrackingEnabled s \<and>
      (\<exists>new. issued s' = issued s @ new) \<and>
      (motionTrackerMoveInFlight s \<longrightarrow> issued s' = issued s \<and> awaiting s' = awaiting s) \<and>
      ((awaiting s' = awaiting s \<and> motionTrackerMoveInFlight s' = motionTrackerMoveInFlight s) \<or>
       (\<exists>k. awaiting s' = awaiting s @ [k] \<and> aw_waiting k = aw_cmds k \<and> aw_cmds k \<noteq> [] \<and>
            set (aw_cmds k) \<subseteq> fst ` set (issued s') \<and>
            motionTrackerMoveInFlight s' \<and> \<not> motionTrackerMoveInFlight s)))"

text \<open>The in-flight guard: at most one handler is parked, and then the flag is set.\<close>

definition guard_ok :: "tracker \<Rightarrow> bool" where
  "guard_ok s = (length (awaiting s) \<le> 1 \<and> (awaiting s \<noteq> [] \<longrightarrow> motionTrackerMoveInFlight s))"

text \<open>
  A parked handler is in order when it waits for commands it has issued and every one of
  them that it no longer waits for has been acknowledged.
\<close>

definition parked_ok :: "nat set \<Rightarrow> (nat \<times> servo_command) list \<Rightarrow> parked_move \<Rightarrow> bool" where
  "parked_ok acks iss k =
     (aw_cmds k \<noteq> [] \<and> set (aw_cmds k) \<subseteq> fst ` set iss \<and>
      (\<forall>q \<in> set (aw_cmds k). q \<in> set (aw_waiting k) \<or> q \<in> acks))"

definition acked_ok :: "nat set \<Rightarrow> tracker \<Rightarrow> bool" where
  "acked_ok acks s = (\<forall>k \<in> set (awaiting s). parked_ok acks (issued s) k)"

definition acks_of :: "trk_event list \<Rightarrow> nat set" where
  "acks_of evs = {q. CmdResolved q \<in> set evs}"



definition one_move :: "trk_event list" where
  "one_move = [StartTracking, ServoEnable, TrackerData [detection (1 / 5) (1 / 5)]]"



definition at_100 :: tracker where
  "at_100 = trk_run [StartTracking, ServoEnable, FileWritten (Contents (Num 100) (Num 135))]"

section \<open>The motion-tracking controller with fire and cooldown\<close>































subsection \<open>What a step of the controller leaves alone\<close>











chapter \<open>Theorems\<close>

section \<open>Reading the persisted position\<close>

text \<open>
  C8, as stated, fails: a finite value outside the axis range is not replaced by the rest
  position. A file holding 300 for the horizontal axis reads back as 270.
\<close>

theorem readServoState_out_of_range_counterexample:
  "SERVO_MAX < 300 \<and>
   horizontal (readServoState (Contents (Num 300) (Num 50))) = 270 \<and>
   horizontal (readServoState (Contents (Num 300) (Num 50))) \<noteq> SERVO_CENTER"
  by (simp add: SERVO_MIN_def SERVO_MAX_def SERVO_CENTER_def)

text \<open>
  C8, amended: a finite value is clamped into the axis range, so a value below 0 reads as 0
  and a value above 270 reads as 270; a value that is not a finite number (a missing or
  non-numeric field, or an infinity) reads as the rest position 135, and so do both axes of
  an unreadable file.
\<close>

theorem readServoState_clamps_or_centers:
  "(h < SERVO_MIN \<longrightarrow> horizontal (readServoState (Contents (Num h) y)) = 0 \<and>
                     vertical (readServoState (Contents x (Num h))) = 0) \<and>
   (SERVO_MAX < h \<longrightarrow> horizontal (readServoState (Contents (Num h) y)) = 270 \<and>
                     vertical (readServoState (Contents x (Num h))) = 270) \<and>
   (SERVO_MIN \<le> h \<and> h \<le> SERVO_MAX \<longrightarrow>
      horizontal (readServoState (Contents (Num h) y)) = h \<and>
      vertical (readServoState (Contents x (Num h))) = h) \<and>
   (\<forall>n \<in> {NaN, PosInfinity, NegInfinity}.
      horizontal (readServoState (Contents n y)) = 135 \<and>
      vertical (readServoState (Contents x n)) = 135) \<and>
   readServoState Unreadable = \<lparr>horizontal = 135, vertical = 135\<rparr>"
  by (auto simp: SERVO_MIN_def SERVO_MAX_def SERVO_CENTER_def)

theorem readServoState_clamps_or_centers_witness:
  "horizontal (readServoState (Contents (Num (-20)) NaN)) = 0 \<and>
   vertical (readServoState (Contents (Num (-20)) NaN)) = 135 \<and>
   horizontal (readServoState (Contents (Num 300) (Num 300))) = 270 \<and>
   vertical (readServoState (Contents PosInfinity (Num 90))) = 90"
  using readServoState_clamps_or_centers [of "-20" NaN NaN]
    readServoState_clamps_or_centers [of 300 "Num 300" NaN]
    readServoState_clamps_or_centers [of 90 NaN PosInfinity]
  by (simp add: SERVO_MIN_def SERVO_MAX_def)

section \<open>The actuator link\<close>

lemma link_inv_boot: "link_inv (startServoDaemon link_boot)"
  by (simp add: link_inv_def startServoDaemon_def link_boot_def)

lemma justified_append:
  assumes "justified snt x" "fst x \<noteq> p"
  shows "justified (snt @ [(p, i, t)]) x"
  using assms by (cases "(snt, x)" rule: justified.cases) (auto simp: image_iff)

lemma link_invD:
  assumes "link_inv s"
  shows "distinct (map fst (settlements s))"
    and "distinct (map fst (sent s))"
    and "distinct (map (fst \<circ> snd) (sent s))"
    and "distinct (map (snd \<circ> snd) (sent s))"
    and "\<And>p i t. (p, i, t) \<in> set (sent s) \<Longrightarrow>
           i \<le> servoSeq s \<and> p < linkNextPromise s \<and> t < linkNextTimer s"
    and "\<And>p i t. (p, i, t) \<in> set (sent s) \<Longrightarrow> in_flight s p i t \<or> answered s p i t"
    and "\<And>x. x \<in> set (settlements s) \<Longrightarrow> fst x < linkNextPromise s \<and> justified (sent s) x"
    and "\<And>i cb. servoCallbacks s i = Some cb \<Longrightarrow> (cb_promise cb, i, cb_timeout cb) \<in> set (sent s)"
    and "\<And>t d i p. linkTimers s t = Some (d, CommandTimeout i p) \<Longrightarrow> (p, i, t) \<in> set (sent s)"
    and "\<And>t. t \<in> dom (linkTimers s) \<Longrightarrow> t < linkNextTimer s"
  using assms unfolding link_inv_def by blast+

lemma link_invI:
  assumes "distinct (map fst (settlements s))"
    and "distinct (map fst (sent s))"
    and "distinct (map (fst \<circ> snd) (sent s))"
    and "distinct (map (snd \<circ> snd) (sent s))"
    and "\<And>p i t. (p, i, t) \<in> set (sent s) \<Longrightarrow>
           i \<le> servoSeq s \<and> p < linkNextPromise s \<and> t < linkNextTimer s"
    and "\<And>p i t. (p, i, t) \<in> set (sent s) \<Longrightarrow> in_flight s p i t \<or> answered s p i t"
    and "\<And>x. x \<in> set (settlements s) \<Longrightarrow> fst x < linkNextPromise s \<and> justified (sent s) x"
    and "\<And>i cb. servoCallbacks s i = Some cb \<Longrightarrow> (cb_promise cb, i, cb_timeout cb) \<in> set (sent s)"
    and "\<And>t d i p. linkTimers s t = Some (d, CommandTimeout i p) \<Longrightarrow> (p, i, t) \<in> set (sent s)"
    and "\<And>t. t \<in> dom (linkTimers s) \<Longrightarrow> t < linkNextTimer s"
  shows "link_inv s"
  unfolding link_inv_def using assms by blast

lemma link_inv_servoCmd_not_ready:
  assumes inv: "link_inv s" and nr: "\<not> servoReady s \<or> servoDaemon s = None"
  shows "link_inv (snd (servoCmd cmd s))"
proof -
  let ?p = "linkNextPromise s"
  let ?s' = "s\<lparr>linkNextPromise := ?p + 1,
     settlements := settlements s @ [(?p, Rejected ''Servo daemon not ready'', NotReady)]\<rparr>"
  note D = link_invD [OF inv]
  have eq: "snd (servoCmd cmd s) = ?s'"
    using nr by (auto simp: servoCmd_def Let_def)
  have fresh1: "?p \<notin> fst ` set (settlements s)"
    using D(7) by fastforce
  have fresh2: "?p \<notin> fst ` set (sent s)"
    using D(5) by fastforce
  show ?thesis
    unfolding eq
  proof (rule link_invI)
    show "distinct (map fst (settlements ?s'))" using D(1) fresh1 by simp
    show "\<And>p i t. (p, i, t) \<in> set (sent ?s') \<Longrightarrow>
           i \<le> servoSeq ?s' \<and> p < linkNextPromise ?s' \<and> t < linkNextTimer ?s'"
      using D(5) by fastforce
    show "\<And>p i t. (p, i, t) \<in> set (sent ?s') \<Longrightarrow> in_flight ?s' p i t \<or> answered ?s' p i t"
    proof -
      fix p i t assume a: "(p, i, t) \<in> set (sent ?s')"
      then have "p \<noteq> ?p" using D(5) [of p i t] by simp
      with D(6) [of p i t] a show "in_flight ?s' p i t \<or> answered ?s' p i t"
        by (auto simp: in_flight_def answered_def)
    qed
    show "\<And>x. x \<in> set (settlements ?s') \<Longrightarrow> fst x < linkNextPromise ?s' \<and> justified (sent ?s') x"
      using D(7) fresh2 by (auto simp: less_Suc_eq)
  qed (use D in simp_all)
qed


lemma link_inv_servoCmd_ready:
  assumes inv: "link_inv s" and rdy: "servoReady s" "servoDaemon s \<noteq> None"
  shows "link_inv (snd (servoCmd cmd s))"
proof -
  define p where "p = linkNextPromise s"
  define i where "i = servoSeq s + 1"
  define t where "t = linkNextTimer s"
  define s' where "s' = snd (servoCmd cmd s)"
  note D = link_invD [OF inv]
  have f: "settlements s' = settlements s" "sent s' = sent s @ [(p, i, t)]"
    "servoSeq s' = i" "linkNextPromise s' = p + 1" "linkNextTimer s' = t + 1"
    "servoCallbacks s' = (servoCallbacks s)(i \<mapsto> \<lparr>cb_timeout = t, cb_promise = p\<rparr>)"
    "linkTimers s' = (linkTimers s)(t \<mapsto> (3000, CommandTimeout i p))"
    using rdy by (auto simp: s'_def servoCmd_def Let_def p_def i_def t_def)
  have old: "\<And>q j u. (q, j, u) \<in> set (sent s) \<Longrightarrow> q \<noteq> p \<and> j \<noteq> i \<and> u \<noteq> t"
    using D(5) by (fastforce simp: p_def i_def t_def)
  have fresh: "p \<notin> fst ` set (settlements s)"
    using D(7) by (fastforce simp: p_def)
  have cb_none: "servoCallbacks s i = None"
  proof (cases "servoCallbacks s i")
    case (Some cb)
    from D(8) [OF Some] old show ?thesis by blast
  qed simp
  have tm_none: "linkTimers s t = None"
    using D(10) [of t] by (auto simp: t_def)
  show ?thesis
    unfolding s'_def [symmetric]
  proof (rule link_invI)
    show "distinct (map fst (settlements s'))" using D(1) f by simp
    show "distinct (map fst (sent s'))" using D(2) old by (force simp: f(2) image_iff)
    show "distinct (map (fst \<circ> snd) (sent s'))" using D(3) old by (force simp: f(2) image_iff)
    show "distinct (map (snd \<circ> snd) (sent s'))" using D(4) old by (force simp: f(2) image_iff)
    show "\<And>q j u. (q, j, u) \<in> set (sent s') \<Longrightarrow>
           j \<le> servoSeq s' \<and> q < linkNextPromise s' \<and> u < linkNextTimer s'"
      using D(5) f by (fastforce simp: p_def i_def t_def)
    show "\<And>q j u. (q, j, u) \<in> set (sent s') \<Longrightarrow> in_flight s' q j u \<or> answered s' q j u"
    proof -
      fix q j u assume a: "(q, j, u) \<in> set (sent s')"
      show "in_flight s' q j u \<or> answered s' q j u"
      proof (cases "(q, j, u) = (p, i, t)")
        case True
        then show ?thesis using fresh f by (simp add: in_flight_def)
      next
        case False
        with a f have b: "(q, j, u) \<in> set (sent s)" by auto
        from old [OF b] D(6) [OF b] show ?thesis
          by (auto simp: in_flight_def answered_def f)
      qed
    qed
    show "\<And>x. x \<in> set (settlements s') \<Longrightarrow> fst x < linkNextPromise s' \<and> justified (sent s') x"
    proof -
      fix x assume a: "x \<in> set (settlements s')"
      then have b: "x \<in> set (settlements s)" using f by simp
      from D(7) [OF b] have "fst x < p" "justified (sent s) x" by (simp_all add: p_def)
      then show "fst x < linkNextPromise s' \<and> justified (sent s') x"
        using justified_append [of "sent s" x p i t] f by simp
    qed
    show "\<And>j cb. servoCallbacks s' j = Some cb \<Longrightarrow> (cb_promise cb, j, cb_timeout cb) \<in> set (sent s')"
      using D(8) f by (auto split: if_splits)
    show "\<And>u d j q. linkTimers s' u = Some (d, CommandTimeout j q) \<Longrightarrow> (q, j, u) \<in> set (sent s')"
      using D(9) f by (auto split: if_splits)
    show "\<And>u. u \<in> dom (linkTimers s') \<Longrightarrow> u < linkNextTimer s'"
      using D(10) f by (auto simp: t_def less_Suc_eq split: if_splits)
  qed
qed


lemma link_inv_cong:
  assumes "settlements s' = settlements s" "sent s' = sent s" "servoSeq s' = servoSeq s"
    "linkNextPromise s' = linkNextPromise s" "linkNextTimer s' = linkNextTimer s"
    "servoCallbacks s' = servoCallbacks s" "linkTimers s' = linkTimers s"
  shows "link_inv s' = link_inv s"
  by (simp add: link_inv_def in_flight_def answered_def assms)

lemma sent_unique:
  assumes "distinct (map f xs)" "x \<in> set xs" "y \<in> set xs" "f x = f y"
  shows "x = y"
  using assms by (meson distinct_map inj_onD)

lemma link_inv_settle:
  assumes inv: "link_inv s"
    and mem: "(p, i, t) \<in> set (sent s)"
    and fl: "in_flight s p i t"
    and just: "justified (sent s) (p, out, c)"
    and f: "settlements s' = settlements s @ [(p, out, c)]" "sent s' = sent s"
      "servoSeq s' = servoSeq s" "linkNextPromise s' = linkNextPromise s"
      "linkNextTimer s' = linkNextTimer s"
      "servoCallbacks s' = (servoCallbacks s)(i := None)"
      "linkTimers s' = (linkTimers s)(t := None)"
  shows "link_inv s'"
proof (rule link_invI)
  note D = link_invD [OF inv]
  have fresh: "p \<notin> fst ` set (settlements s)" using fl by (simp add: in_flight_def)
  show "distinct (map fst (settlements s'))" using D(1) fresh f by simp
  show "distinct (map fst (sent s'))" "distinct (map (fst \<circ> snd) (sent s'))"
    "distinct (map (snd \<circ> snd) (sent s'))" using D(2,3,4) f by simp_all
  show "\<And>q j u. (q, j, u) \<in> set (sent s') \<Longrightarrow>
         j \<le> servoSeq s' \<and> q < linkNextPromise s' \<and> u < linkNextTimer s'"
    using D(5) f by simp
  show "\<And>q j u. (q, j, u) \<in> set (sent s') \<Longrightarrow> in_flight s' q j u \<or> answered s' q j u"
  proof -
    fix q j u assume "(q, j, u) \<in> set (sent s')"
    then have a: "(q, j, u) \<in> set (sent s)" using f by simp
    show "in_flight s' q j u \<or> answered s' q j u"
    proof (cases "(q, j, u) = (p, i, t)")
      case True
      then show ?thesis using f by (simp add: answered_def)
    next
      case False
      have "q \<noteq> p" using sent_unique [OF D(2) a mem] False by auto
      moreover have "j \<noteq> i" using sent_unique [OF D(3) a mem] False by auto
      moreover have "u \<noteq> t" using sent_unique [OF D(4) a mem] False by auto
      ultimately show ?thesis using D(6) [OF a]
        by (auto simp: in_flight_def answered_def f)
    qed
  qed
  show "\<And>x. x \<in> set (settlements s') \<Longrightarrow> fst x < linkNextPromise s' \<and> justified (sent s') x"
    using D(7) D(5) [OF mem] just f by auto
  show "\<And>j cb. servoCallbacks s' j = Some cb \<Longrightarrow> (cb_promise cb, j, cb_timeout cb) \<in> set (sent s')"
    using D(8) f by (auto split: if_splits)
  show "\<And>u d j q. linkTimers s' u = Some (d, CommandTimeout j q) \<Longrightarrow> (q, j, u) \<in> set (sent s')"
    using D(9) f by (auto split: if_splits)
  show "\<And>u. u \<in> dom (linkTimers s') \<Longrightarrow> u < linkNextTimer s'"
    using D(10) f by (auto split: if_splits)
qed

lemma link_inv_servo_line:
  assumes inv: "link_inv s"
  shows "link_inv (servo_line line s)"
proof -
  note D = link_invD [OF inv]
  have "servo_line line s = s \<or> servo_line line s = s\<lparr>servoReady := True\<rparr> \<or>
     (\<exists>n r cb. match_seq (trim line) = Some (n, r) \<and> servoCallbacks s n = Some cb \<and>
        servo_line line s = s\<lparr>servoCallbacks := (servoCallbacks s)(n := None),
            linkTimers := (linkTimers s)(cb_timeout cb := None),
            settlements := settlements s @ [(cb_promise cb, Resolved r, ByResponse n)]\<rparr>)"
    unfolding servo_line_def Let_def by (simp split: option.split prod.split)
  then consider (same) "servo_line line s = s"
    | (ready) "servo_line line s = s\<lparr>servoReady := True\<rparr>"
    | (resolve) n r cb where "match_seq (trim line) = Some (n, r)" "servoCallbacks s n = Some cb"
        "servo_line line s = s\<lparr>servoCallbacks := (servoCallbacks s)(n := None),
            linkTimers := (linkTimers s)(cb_timeout cb := None),
            settlements := settlements s @ [(cb_promise cb, Resolved r, ByResponse n)]\<rparr>"
    by blast
  then show ?thesis
  proof cases
    case same
    then show ?thesis using inv by simp
  next
    case ready
    then show ?thesis using inv link_inv_cong [of "s\<lparr>servoReady := True\<rparr>" s] by simp
  next
    case resolve
    have mem: "(cb_promise cb, n, cb_timeout cb) \<in> set (sent s)" by (rule D(8) [OF resolve(2)])
    have fl: "in_flight s (cb_promise cb) n (cb_timeout cb)"
      using D(6) [OF mem] resolve(2) by (auto simp: answered_def)
    show ?thesis
      unfolding resolve(3)
      by (rule link_inv_settle [OF inv mem fl]) (use mem in auto)
  qed
qed

lemma link_inv_fold_servo_line:
  "link_inv s \<Longrightarrow> link_inv (fold servo_line ls s)"
  by (induction ls arbitrary: s) (simp_all add: link_inv_servo_line)

lemma link_inv_stdout:
  assumes "link_inv s"
  shows "link_inv (servo_stdout_data d s)"
proof -
  have "link_inv (s\<lparr>servoBuffer := b\<rparr>)" for b
    using assms link_inv_cong [of "s\<lparr>servoBuffer := b\<rparr>" s] by simp
  then show ?thesis
    unfolding servo_stdout_data_def Let_def by (rule link_inv_fold_servo_line)
qed

lemma link_inv_timer:
  assumes inv: "link_inv s"
  shows "link_inv (link_timer_fires t s)"
proof (cases "linkTimers s t")
  case None
  then show ?thesis using inv by (simp add: link_timer_fires_def)
next
  case (Some a)
  note D = link_invD [OF inv]
  obtain d k where a: "a = (d, k)" by (cases a)
  show ?thesis
  proof (cases k)
    case (CommandTimeout i p)
    have mem: "(p, i, t) \<in> set (sent s)" using D(9) Some a CommandTimeout by simp
    have fl: "in_flight s p i t"
      using D(6) [OF mem] Some by (auto simp: answered_def)
    have eq: "link_timer_fires t s = s\<lparr>linkTimers := (linkTimers s)(t := None),
            servoCallbacks := (servoCallbacks s)(i := None),
            settlements := settlements s @
              [(p, Rejected ''Servo command timed out'', ByTimeout t)]\<rparr>"
      using Some a CommandTimeout by (simp add: link_timer_fires_def)
    show ?thesis
      unfolding eq
      by (rule link_inv_settle [OF inv mem fl]) (use mem in auto)
  next
    case RestartDaemon
    let ?s' = "startServoDaemon (s\<lparr>linkTimers := (linkTimers s)(t := None)\<rparr>)"
    have eq: "link_timer_fires t s = ?s'"
      using Some a RestartDaemon by (simp add: link_timer_fires_def)
    have f: "settlements ?s' = settlements s" "sent ?s' = sent s"
      "servoSeq ?s' = servoSeq s" "linkNextPromise ?s' = linkNextPromise s"
      "linkNextTimer ?s' = linkNextTimer s" "servoCallbacks ?s' = servoCallbacks s"
      "linkTimers ?s' = (linkTimers s)(t := None)"
      by (simp_all add: startServoDaemon_def)
    show ?thesis
      unfolding eq
    proof (rule link_invI)
      show "\<And>q j u. (q, j, u) \<in> set (sent ?s') \<Longrightarrow> in_flight ?s' q j u \<or> answered ?s' q j u"
      proof -
        fix q j u assume "(q, j, u) \<in> set (sent ?s')"
        then have b: "(q, j, u) \<in> set (sent s)" by (simp add: f)
        from D(6) [OF b] Some a RestartDaemon show "in_flight ?s' q j u \<or> answered ?s' q j u"
          unfolding in_flight_def answered_def f by auto
      qed
      show "\<And>u d j q. linkTimers ?s' u = Some (d, CommandTimeout j q) \<Longrightarrow> (q, j, u) \<in> set (sent ?s')"
        unfolding f using D(9) by (auto split: if_splits)
      show "\<And>u. u \<in> dom (linkTimers ?s') \<Longrightarrow> u < linkNextTimer ?s'"
        unfolding f using D(10) by (auto split: if_splits)
    qed (use D in \<open>simp_all add: f\<close>)
  qed
qed

lemma link_inv_exit:
  assumes inv: "link_inv s"
  shows "link_inv (servo_daemon_exit s)"
proof -
  note D = link_invD [OF inv]
  let ?s' = "servo_daemon_exit s"
  have f: "settlements ?s' = settlements s" "sent ?s' = sent s"
      "servoSeq ?s' = servoSeq s" "linkNextPromise ?s' = linkNextPromise s"
      "linkNextTimer ?s' = linkNextTimer s + 1" "servoCallbacks ?s' = servoCallbacks s"
      "linkTimers ?s' = (linkTimers s)(linkNextTimer s \<mapsto> (1000, RestartDaemon))"
    by (simp_all add: servo_daemon_exit_def)
  show ?thesis
  proof (rule link_invI)
    show "\<And>q j u. (q, j, u) \<in> set (sent ?s') \<Longrightarrow>
         j \<le> servoSeq ?s' \<and> q < linkNextPromise ?s' \<and> u < linkNextTimer ?s'"
      unfolding f using D(5) by fastforce
    show "\<And>q j u. (q, j, u) \<in> set (sent ?s') \<Longrightarrow> in_flight ?s' q j u \<or> answered ?s' q j u"
    proof -
      fix q j u assume "(q, j, u) \<in> set (sent ?s')"
      then have b: "(q, j, u) \<in> set (sent s)" by (simp add: f)
      from D(5) [OF b] have "u \<noteq> linkNextTimer s" by simp
      with D(6) [OF b] show "in_flight ?s' q j u \<or> answered ?s' q j u"
        unfolding in_flight_def answered_def f by auto
    qed
    show "\<And>u d j q. linkTimers ?s' u = Some (d, CommandTimeout j q) \<Longrightarrow> (q, j, u) \<in> set (sent ?s')"
      unfolding f using D(9) by (auto split: if_splits)
    show "\<And>u. u \<in> dom (linkTimers ?s') \<Longrightarrow> u < linkNextTimer ?s'"
      unfolding f using D(10) by (auto simp: less_Suc_eq split: if_splits)
  qed (use D in \<open>simp_all add: f\<close>)
qed

lemma link_inv_step: "link_inv s \<Longrightarrow> link_inv (link_step s e)"
proof (cases e)
  case (Call cmd)
  assume "link_inv s"
  then show ?thesis
    using link_inv_servoCmd_ready [of s cmd] link_inv_servoCmd_not_ready [of s cmd] Call
    by (cases "servoReady s \<and> servoDaemon s \<noteq> None") auto
qed (simp_all add: link_inv_stdout link_inv_timer link_inv_exit)

lemma link_inv_foldl: "link_inv s \<Longrightarrow> link_inv (foldl link_step s evs)"
  by (induction evs arbitrary: s) (simp_all add: link_inv_step)

lemma link_inv_run: "link_inv (link_run evs)"
  unfolding link_run_def by (rule link_inv_foldl) (rule link_inv_boot)

lemma filter_fst_distinct:
  "distinct (map fst xs) \<Longrightarrow> (p, y) \<in> set xs \<Longrightarrow> filter (\<lambda>x. fst x = p) xs = [(p, y)]"
proof (induction xs)
  case Nil
  then show ?case by simp
next
  case (Cons a xs)
  show ?case
  proof (cases "fst a = p")
    case True
    with Cons.prems have "a = (p, y)" by (cases a) (auto simp: image_iff)
    moreover have "filter (\<lambda>x. fst x = p) xs = []"
      using Cons.prems(1) True by (auto simp: filter_empty_conv image_iff)
    ultimately show ?thesis by simp
  next
    case False
    with Cons show ?thesis by auto
  qed
qed

lemma settled_by_empty: "p \<notin> fst ` set (settlements s) \<Longrightarrow> settled_by s p = []"
  by (auto simp: settled_by_def filter_empty_conv image_iff)

lemma settled_by_single:
  "distinct (map fst (settlements s)) \<Longrightarrow> (p, y) \<in> set (settlements s) \<Longrightarrow> settled_by s p = [y]"
  by (simp add: settled_by_def filter_fst_distinct)

lemma settled_by_le_1:
  assumes "link_inv s"
  shows "length (settled_by s p) \<le> 1"
proof (cases "p \<in> fst ` set (settlements s)")
  case True
  then obtain y where "(p, y) \<in> set (settlements s)" by auto
  with settled_by_single [OF link_invD(1) [OF assms]] show ?thesis by simp
next
  case False
  then show ?thesis by (simp add: settled_by_empty)
qed

lemma sent_status:
  assumes inv: "link_inv s" and mem: "(p, i, t) \<in> set (sent s)"
  shows "(settled_by s p = [] \<and>
          servoCallbacks s i = Some \<lparr>cb_timeout = t, cb_promise = p\<rparr> \<and>
          linkTimers s t = Some (3000, CommandTimeout i p)) \<or>
         (servoCallbacks s i = None \<and> linkTimers s t = None \<and>
          ((\<exists>r. settled_by s p = [(Resolved r, ByResponse i)]) \<or>
           settled_by s p = [(Rejected ''Servo command timed out'', ByTimeout t)]))"
proof -
  note D = link_invD [OF inv]
  from D(6) [OF mem] show ?thesis
  proof
    assume "in_flight s p i t"
    then show ?thesis by (simp add: in_flight_def settled_by_empty)
  next
    assume a: "answered s p i t"
    then obtain out c where x: "(p, out, c) \<in> set (settlements s)"
      by (auto simp: answered_def)
    have sb: "settled_by s p = [(out, c)]" by (rule settled_by_single [OF D(1) x])
    from D(7) [OF x] have j: "justified (sent s) (p, out, c)" by simp
    have "(\<exists>r. out = Resolved r \<and> c = ByResponse i) \<or>
          (out = Rejected ''Servo command timed out'' \<and> c = ByTimeout t)"
    proof (cases c)
      case NotReady
      with j mem show ?thesis by (force simp: image_iff)
    next
      case (ByResponse n)
      with j obtain r u where "out = Resolved r" "(p, n, u) \<in> set (sent s)" by auto
      with sent_unique [OF D(2) mem, of "(p, n, u)"] ByResponse show ?thesis by simp
    next
      case (ByTimeout u)
      with j obtain n where "out = Rejected ''Servo command timed out''" "(p, n, u) \<in> set (sent s)"
        by auto
      with sent_unique [OF D(2) mem, of "(p, n, u)"] ByTimeout show ?thesis by simp
    qed
    with a sb show ?thesis by (auto simp: answered_def)
  qed
qed

lemma timer_fires_fields:
  "linkTimers (link_timer_fires t s) t = None" "sent (link_timer_fires t s) = sent s"
  by (auto simp: link_timer_fires_def startServoDaemon_def split: option.splits timer_callback.splits)

lemma sent_settled_after_timeout:
  assumes inv: "link_inv s" and mem: "(p, i, t) \<in> set (sent s)"
  shows "length (settled_by (link_step s (TimerFires t)) p) = 1"
proof -
  let ?s' = "link_timer_fires t s"
  have inv': "link_inv ?s'" by (rule link_inv_timer [OF inv])
  have mem': "(p, i, t) \<in> set (sent ?s')" using mem by (simp add: timer_fires_fields)
  from sent_status [OF inv' mem'] show ?thesis
    by (auto simp: timer_fires_fields)
qed

text \<open>
  C1. In every run of the link (any interleaving of calls, daemon output, timer firings and
  daemon exits): every promise is settled at most once; sequence ids are never reused;
  every command that was written is either still pending under its own id with its own
  3000 ms timeout armed, or it has been settled exactly once, by the response line tagged
  with its own id or by its own timeout, and once its timeout has had its turn it is
  settled exactly once; every entry of the callback map belongs to the one command that
  was sent under that id.
\<close>

theorem servo_correlation:
  "let s = link_run evs in
     (\<forall>p. length (settled_by s p) \<le> 1) \<and>
     distinct (map (fst \<circ> snd) (sent s)) \<and>
     (\<forall>(p, i, t) \<in> set (sent s).
        ((settled_by s p = [] \<and>
          servoCallbacks s i = Some \<lparr>cb_timeout = t, cb_promise = p\<rparr> \<and>
          linkTimers s t = Some (3000, CommandTimeout i p)) \<or>
         (servoCallbacks s i = None \<and> linkTimers s t = None \<and>
          ((\<exists>r. settled_by s p = [(Resolved r, ByResponse i)]) \<or>
           settled_by s p = [(Rejected ''Servo command timed out'', ByTimeout t)]))) \<and>
        length (settled_by (link_step s (TimerFires t)) p) = 1) \<and>
     (\<forall>i cb. servoCallbacks s i = Some cb \<longrightarrow>
        (cb_promise cb, i, cb_timeout cb) \<in> set (sent s))"
proof -
  have inv: "link_inv (link_run evs)" by (rule link_inv_run)
  note D = link_invD [OF inv]
  show ?thesis
    unfolding Let_def
  proof (intro conjI allI impI ballI)
    fix p show "length (settled_by (link_run evs) p) \<le> 1" by (rule settled_by_le_1 [OF inv])
  next
    show "distinct (map (fst \<circ> snd) (sent (link_run evs)))" by (rule D(3))
  next
    fix x assume x: "x \<in> set (sent (link_run evs))"
    obtain p i t where e: "x = (p, i, t)" by (cases x)
    show "case x of (p, i, t) \<Rightarrow>
        ((settled_by (link_run evs) p = [] \<and>
          servoCallbacks (link_run evs) i = Some \<lparr>cb_timeout = t, cb_promise = p\<rparr> \<and>
          linkTimers (link_run evs) t = Some (3000, CommandTimeout i p)) \<or>
         (servoCallbacks (link_run evs) i = None \<and> linkTimers (link_run evs) t = None \<and>
          ((\<exists>r. settled_by (link_run evs) p = [(Resolved r, ByResponse i)]) \<or>
           settled_by (link_run evs) p = [(Rejected ''Servo command timed out'', ByTimeout t)]))) \<and>
        length (settled_by (link_step (link_run evs) (TimerFires t)) p) = 1"
      using sent_status [OF inv x [unfolded e]] sent_settled_after_timeout [OF inv x [unfolded e]]
      unfolding e by simp
  next
    fix i cb assume "servoCallbacks (link_run evs) i = Some cb"
    then show "(cb_promise cb, i, cb_timeout cb) \<in> set (sent (link_run evs))" by (rule D(8))
  qed
qed

lemma link_example_sent: "sent (link_run link_example) = [(0, 1, 0), (1, 2, 1)]"
  by code_simp




lemma link_example_mem: "(0, 1, 0) \<in> set (sent (link_run link_example))" "(1, 2, 1) \<in> set (sent (link_run link_example))"
  by (simp_all add: link_example_sent)

lemma link_example_settled_0: "settled_by (link_run link_example) 0 = [(Rejected ''Servo command timed out'', ByTimeout 0)]"
  by code_simp

lemma link_example_settled_1: "settled_by (link_run link_example) 1 = [(Resolved ''OK 135'', ByResponse 2)]"
  by code_simp


theorem servo_correlation_witness:
  "(0, 1, 0) \<in> set (sent (link_run link_example)) \<and> (1, 2, 1) \<in> set (sent (link_run link_example)) \<and>
   settled_by (link_run link_example) 0 = [(Rejected ''Servo command timed out'', ByTimeout 0)] \<and>
   settled_by (link_run link_example) 1 = [(Resolved ''OK 135'', ByResponse 2)] \<and>
   length (settled_by (link_step (link_run link_example) (TimerFires 1)) 1) = 1 \<and>
   servoCallbacks (link_run link_example) 2 = None"
proof -
  note T = servo_correlation [of link_example, unfolded Let_def]
  from T have C: "\<forall>(p, i, t) \<in> set (sent (link_run link_example)).
        ((settled_by (link_run link_example) p = [] \<and>
          servoCallbacks (link_run link_example) i = Some \<lparr>cb_timeout = t, cb_promise = p\<rparr> \<and>
          linkTimers (link_run link_example) t = Some (3000, CommandTimeout i p)) \<or>
         (servoCallbacks (link_run link_example) i = None \<and> linkTimers (link_run link_example) t = None \<and>
          ((\<exists>r. settled_by (link_run link_example) p = [(Resolved r, ByResponse i)]) \<or>
           settled_by (link_run link_example) p = [(Rejected ''Servo command timed out'', ByTimeout t)]))) \<and>
        length (settled_by (link_step (link_run link_example) (TimerFires t)) p) = 1"
    by (rule conjunct1 [OF conjunct2 [OF conjunct2]])
  from bspec [OF C link_example_mem(2)] have
    c: "(settled_by (link_run link_example) 1 = [] \<and>
          servoCallbacks (link_run link_example) 2 = Some \<lparr>cb_timeout = 1, cb_promise = 1\<rparr> \<and>
          linkTimers (link_run link_example) 1 = Some (3000, CommandTimeout 2 1)) \<or>
         (servoCallbacks (link_run link_example) 2 = None \<and> linkTimers (link_run link_example) 1 = None \<and>
          ((\<exists>r. settled_by (link_run link_example) 1 = [(Resolved r, ByResponse 2)]) \<or>
           settled_by (link_run link_example) 1 = [(Rejected ''Servo command timed out'', ByTimeout 1)]))"
    and d: "length (settled_by (link_step (link_run link_example) (TimerFires 1)) 1) = 1"
    by simp_all
  from c have e: "servoCallbacks (link_run link_example) 2 = None" unfolding link_example_settled_1 by simp
  show ?thesis using link_example_mem link_example_settled_0 link_example_settled_1 d e by simp
qed

text \<open>
  C10. A call of \<open>servoCmd\<close> while the ready flag is false or the daemon handle is null
  returns a promise that is rejected at once with the error 'Servo daemon not ready', and
  changes nothing else: no sequence id is consumed, the callback map and the pending
  timers are as before, and nothing is written to the daemon's standard input.
\<close>

theorem servoCmd_not_ready:
  assumes "\<not> servoReady s \<or> servoDaemon s = None"
  shows "servoCmd cmd s =
           (linkNextPromise s,
            s\<lparr>linkNextPromise := linkNextPromise s + 1,
              settlements := settlements s @
                [(linkNextPromise s, Rejected ''Servo daemon not ready'', NotReady)]\<rparr>) \<and>
         servoSeq (snd (servoCmd cmd s)) = servoSeq s \<and>
         servoCallbacks (snd (servoCmd cmd s)) = servoCallbacks s \<and>
         linkTimers (snd (servoCmd cmd s)) = linkTimers s \<and>
         linkNextTimer (snd (servoCmd cmd s)) = linkNextTimer s \<and>
         daemonStdin (snd (servoCmd cmd s)) = daemonStdin s \<and>
         sent (snd (servoCmd cmd s)) = sent s \<and>
         servoReady (snd (servoCmd cmd s)) = servoReady s \<and>
         servoDaemon (snd (servoCmd cmd s)) = servoDaemon s \<and>
         servoBuffer (snd (servoCmd cmd s)) = servoBuffer s"
  using assms by (auto simp: servoCmd_def Let_def)

theorem servoCmd_not_ready_witness:
  "settlements (snd (servoCmd ''SET 0 135'' (startServoDaemon link_boot))) =
     [(0, Rejected ''Servo daemon not ready'', NotReady)] \<and>
   servoSeq (snd (servoCmd ''SET 0 135'' (startServoDaemon link_boot))) = 0 \<and>
   daemonStdin (snd (servoCmd ''SET 0 135'' (startServoDaemon link_boot))) = []"
proof -
  have h: "\<not> servoReady (startServoDaemon link_boot) \<or> servoDaemon (startServoDaemon link_boot) = None"
    by (simp add: startServoDaemon_def link_boot_def)
  show ?thesis
    using servoCmd_not_ready [OF h, of "''SET 0 135''"]
    by (simp add: startServoDaemon_def link_boot_def)
qed

section \<open>The frame multiplexer\<close>

lemma indexOf_bound: "indexOf xs a b = Some i \<Longrightarrow> i + 2 \<le> length xs"
  by (induction xs a b arbitrary: i rule: indexOf.induct) (auto split: if_splits)

lemma indexOf_append: "indexOf xs a b = Some i \<Longrightarrow> indexOf (xs @ ys) a b = Some i"
proof (induction xs a b arbitrary: i rule: indexOf.induct)
  case (1 x y zs a b)
  then show ?case by (auto split: if_splits)
qed simp_all

lemma indexOf_at: "indexOf xs a b = Some i \<Longrightarrow> take 2 (drop i xs) = [a, b]"
  by (induction xs a b arbitrary: i rule: indexOf.induct) (auto split: if_splits)

lemma indexOf_from_bound: "indexOf_from xs a b k = Some i \<Longrightarrow> k \<le> i \<and> i + 2 \<le> length xs"
  by (auto simp: indexOf_from_def dest!: indexOf_bound)

lemma indexOf_from_append:
  "indexOf_from xs a b k = Some i \<Longrightarrow> indexOf_from (xs @ ys) a b k = Some i"
  by (auto simp: indexOf_from_def dest: indexOf_bound intro: indexOf_append)

lemma indexOf_from_at: "indexOf_from xs a b k = Some i \<Longrightarrow> take 2 (drop i xs) = [a, b]"
  by (auto simp: indexOf_from_def add.commute dest!: indexOf_at)

lemma frame_round_append:
  assumes "frame_round s = Some s'"
  shows "frame_round (s\<lparr>frameBuffer := frameBuffer s @ c\<rparr>) = Some (s'\<lparr>frameBuffer := frameBuffer s' @ c\<rparr>)"
proof -
  from assms obtain i j where i: "indexOf (frameBuffer s) 0xFF 0xD8 = Some i"
    and j: "indexOf_from (frameBuffer s) 0xFF 0xD9 i = Some j"
    and s': "s' = s\<lparr>frameBuffer := drop (j + 2) (frameBuffer s),
                   latestFrame := Some (take (j + 2 - i) (drop i (frameBuffer s))),
                   cameraClients := map (send_frame (take (j + 2 - i) (drop i (frameBuffer s)))) (cameraClients s),
                   broadcasts := broadcasts s @ [take (j + 2 - i) (drop i (frameBuffer s))]\<rparr>"
    by (auto simp: frame_round_def Let_def split: option.splits)
  from indexOf_from_bound [OF j] have b: "i \<le> j" "j + 2 \<le> length (frameBuffer s)" by simp_all
  have t: "take (Suc (Suc j) - i) (drop i (frameBuffer s @ c)) =
           take (Suc (Suc j) - i) (drop i (frameBuffer s))"
    using b by simp
  have d: "drop (Suc (Suc j)) (frameBuffer s @ c) = drop (Suc (Suc j)) (frameBuffer s) @ c"
    using b by simp
  show ?thesis
    unfolding frame_round_def
    by (simp add: indexOf_append [OF i] indexOf_from_append [OF j] Let_def t d s' del: drop_append)
qed

lemma frame_loop_rest: "frame_round (frame_loop s) = None"
proof (induction s rule: frame_loop.induct)
  case (1 s)
  show ?case
  proof (cases "frame_round s")
    case None
    then show ?thesis using frame_loop.simps [of s] by simp
  next
    case (Some s')
    with 1 show ?thesis using frame_loop.simps [of s] by simp
  qed
qed

lemma frame_loop_append:
  "frame_loop (s\<lparr>frameBuffer := frameBuffer s @ c\<rparr>) =
   frame_loop ((frame_loop s)\<lparr>frameBuffer := frameBuffer (frame_loop s) @ c\<rparr>)"
proof (induction s rule: frame_loop.induct)
  case (1 s)
  show ?case
  proof (cases "frame_round s")
    case None
    then have "frame_loop s = s" using frame_loop.simps [of s] by simp
    then show ?thesis by simp
  next
    case (Some s')
    have l: "frame_loop s = frame_loop s'" using Some frame_loop.simps [of s] by simp
    have "frame_loop (s\<lparr>frameBuffer := frameBuffer s @ c\<rparr>) =
          frame_loop (s'\<lparr>frameBuffer := frameBuffer s' @ c\<rparr>)"
      using frame_round_append [OF Some, of c]
        frame_loop.simps [of "s\<lparr>frameBuffer := frameBuffer s @ c\<rparr>"] by simp
    also have "\<dots> = frame_loop ((frame_loop s')\<lparr>frameBuffer := frameBuffer (frame_loop s') @ c\<rparr>)"
      by (rule 1 [OF Some])
    finally show ?thesis by (simp add: l)
  qed
qed

lemma broadcastFrame_append:
  "broadcastFrame y (broadcastFrame x s) = broadcastFrame (x @ y) s"
  unfolding broadcastFrame_def
  using frame_loop_append [of "s\<lparr>frameBuffer := frameBuffer s @ x\<rparr>" y] by simp

lemma broadcastFrame_chunks:
  "fold broadcastFrame chunks (broadcastFrame c s) = broadcastFrame (c @ concat chunks) s"
proof (induction chunks arbitrary: c)
  case Nil
  then show ?case by simp
next
  case (Cons d chunks)
  show ?case using Cons [of "c @ d"] by (simp add: broadcastFrame_append)
qed

lemma frame_loop_idle: "frame_round s = None \<Longrightarrow> frame_loop s = s"
  using frame_loop.simps [of s] by simp

lemma broadcastFrame_empty: "broadcastFrame [] (broadcastFrame c s) = broadcastFrame c s"
  by (simp add: broadcastFrame_append)

lemma frame_round_jpeg:
  assumes "frame_round s = Some s'"
  shows "\<exists>f. jpeg_run f \<and> broadcasts s' = broadcasts s @ [f] \<and> latestFrame s' = Some f"
proof -
  from assms obtain i j where i: "indexOf (frameBuffer s) 0xFF 0xD8 = Some i"
    and j: "indexOf_from (frameBuffer s) 0xFF 0xD9 i = Some j"
    and s': "s' = s\<lparr>frameBuffer := drop (j + 2) (frameBuffer s),
                   latestFrame := Some (take (j + 2 - i) (drop i (frameBuffer s))),
                   cameraClients := map (send_frame (take (j + 2 - i) (drop i (frameBuffer s)))) (cameraClients s),
                   broadcasts := broadcasts s @ [take (j + 2 - i) (drop i (frameBuffer s))]\<rparr>"
    by (auto simp: frame_round_def Let_def split: option.splits)
  let ?f = "take (j + 2 - i) (drop i (frameBuffer s))"
  from indexOf_from_bound [OF j] have b: "i \<le> j" "j + 2 \<le> length (frameBuffer s)" by simp_all
  have len: "length ?f = j + 2 - i" using b by simp
  have "take 2 ?f = take 2 (drop i (frameBuffer s))" using b by (simp add: min_def)
  then have st: "take 2 ?f = [0xFF, 0xD8]" using indexOf_at [OF i] by simp
  have "drop (length ?f - 2) ?f = take 2 (drop (j - i) (drop i (frameBuffer s)))"
    using b unfolding len by (simp add: drop_take)
  also have "\<dots> = take 2 (drop j (frameBuffer s))" using b by simp
  finally have en: "drop (length ?f - 2) ?f = [0xFF, 0xD9]" using indexOf_from_at [OF j] by simp
  show ?thesis using st en by (auto simp: jpeg_run_def s')
qed

lemma frame_loop_jpeg:
  "\<exists>fs. list_all jpeg_run fs \<and> broadcasts (frame_loop s) = broadcasts s @ fs"
proof (induction s rule: frame_loop.induct)
  case (1 s)
  show ?case
  proof (cases "frame_round s")
    case None
    then show ?thesis by (simp add: frame_loop_idle)
  next
    case (Some s')
    have l: "frame_loop s = frame_loop s'" using Some frame_loop.simps [of s] by simp
    from frame_round_jpeg [OF Some] obtain f where f: "jpeg_run f" "broadcasts s' = broadcasts s @ [f]"
      by blast
    from 1 [OF Some] obtain fs where "list_all jpeg_run fs" "broadcasts (frame_loop s') = broadcasts s' @ fs"
      by blast
    with f l show ?thesis by (intro exI [of _ "f # fs"]) simp
  qed
qed

lemma broadcastFrame_at_rest: "frame_round (broadcastFrame c s) = None"
  by (simp add: broadcastFrame_def frame_loop_rest)

lemma broadcastFrame_jpeg:
  "\<exists>fs. list_all jpeg_run fs \<and> broadcasts (broadcastFrame c s) = broadcasts s @ fs"
  using frame_loop_jpeg [of "s\<lparr>frameBuffer := frameBuffer s @ c\<rparr>"]
  by (simp add: broadcastFrame_def)

text \<open>
  C2. Feeding a byte stream to \<open>broadcastFrame\<close> chunk by chunk leaves the same state
  (the frames broadcast, the latest frame, the buffered rest and what every viewer was
  sent) as feeding it in one piece, wherever the chunk boundaries fall: for a stream cut
  into a first chunk and any further chunks from any state, and for any chunking at all
  from a state whose buffer holds no complete frame (as at start and after every call).
  Every frame broadcast opens with FF D8 and closes with FF D9.
\<close>

theorem broadcastFrame_chunk_independent:
  "fold broadcastFrame chunks (broadcastFrame c s) = broadcastFrame (c @ concat chunks) s \<and>
   (frame_round s = None \<longrightarrow> fold broadcastFrame chunks s = broadcastFrame (concat chunks) s) \<and>
   frame_round (broadcastFrame c s) = None \<and>
   (\<exists>fs. list_all jpeg_run fs \<and> broadcasts (broadcastFrame c s) = broadcasts s @ fs)"
proof (intro conjI impI)
  show "fold broadcastFrame chunks (broadcastFrame c s) = broadcastFrame (c @ concat chunks) s"
    by (rule broadcastFrame_chunks)
  show "frame_round (broadcastFrame c s) = None" by (rule broadcastFrame_at_rest)
  show "\<exists>fs. list_all jpeg_run fs \<and> broadcasts (broadcastFrame c s) = broadcasts s @ fs"
    by (rule broadcastFrame_jpeg)
next
  assume rest: "frame_round s = None"
  show "fold broadcastFrame chunks s = broadcastFrame (concat chunks) s"
  proof (cases chunks)
    case Nil
    then show ?thesis using rest by (simp add: broadcastFrame_def frame_loop_idle)
  next
    case (Cons d ds)
    then show ?thesis by (simp add: broadcastFrame_chunks)
  qed
qed

lemma one_viewer_at_rest: "frame_round one_viewer = None"
  by code_simp

lemma one_piece_broadcasts:
  "broadcasts (broadcastFrame ([0xFF] @ concat [[0xD8, 1, 2, 3, 0xFF], [0xD9, 0xFF], [0xD8, 7, 0xFF], [0xD9]])
     one_viewer) = [jpegA, jpegB]"
  by code_simp

theorem broadcastFrame_chunk_independent_witness:
  "frame_round one_viewer = None \<and>
   broadcasts (fold broadcastFrame [[0xD8, 1, 2, 3, 0xFF], [0xD9, 0xFF], [0xD8, 7, 0xFF], [0xD9]]
     (broadcastFrame [0xFF] one_viewer)) = [jpegA, jpegB] \<and>
   fold broadcastFrame [[0xFF], [0xD8, 1, 2, 3, 0xFF, 0xD9]] one_viewer =
     broadcastFrame (concat [[0xFF], [0xD8, 1, 2, 3, 0xFF, 0xD9]]) one_viewer"
proof -
  have a: "fold broadcastFrame [[0xD8, 1, 2, 3, 0xFF], [0xD9, 0xFF], [0xD8, 7, 0xFF], [0xD9]]
            (broadcastFrame [0xFF] one_viewer) =
           broadcastFrame ([0xFF] @ concat [[0xD8, 1, 2, 3, 0xFF], [0xD9, 0xFF], [0xD8, 7, 0xFF], [0xD9]])
            one_viewer"
    using broadcastFrame_chunk_independent
      [of "[[0xD8, 1, 2, 3, 0xFF], [0xD9, 0xFF], [0xD8, 7, 0xFF], [0xD9]]" "[0xFF]" one_viewer]
    by (rule conjunct1)
  have b: "fold broadcastFrame [[0xFF], [0xD8, 1, 2, 3, 0xFF, 0xD9]] one_viewer =
           broadcastFrame (concat [[0xFF], [0xD8, 1, 2, 3, 0xFF, 0xD9]]) one_viewer"
    using broadcastFrame_chunk_independent [of "[[0xFF], [0xD8, 1, 2, 3, 0xFF, 0xD9]]" "[]" one_viewer]
      one_viewer_at_rest by blast
  show ?thesis
    unfolding a using one_piece_broadcasts one_viewer_at_rest b by simp
qed

section \<open>Viewers and back-pressure\<close>

lemma clients_step_refl: "clients_step cs cs"
  unfolding clients_step_def by simp

lemma attach_viewer_clients:
  "\<exists>v. cameraClients (attach_viewer k s) = cameraClients s @ [v] \<and> just_attached v"
  by (auto simp: attach_viewer_def Let_def just_attached_def split: option.splits)

lemma startCameraStream_clients: "cameraClients (startCameraStream k s) = []"
  by (simp add: startCameraStream_def Let_def)

lemma stopCameraStream_clients:
  "cameraClients (stopCameraStream k s) = [] \<or> cameraClients (stopCameraStream k s) = cameraClients s"
  by (auto simp: stopCameraStream_def Let_def startCameraStream_clients split: option.splits)

lemma stream_request_clients: "clients_step (cameraClients s) (cameraClients (stream_request r s))"
proof -
  let ?cs = "cameraClients s"
  have a: "clients_step ?cs (cameraClients (attach_viewer k s'))" if "cameraClients s' = ?cs" for k s'
    using attach_viewer_clients [of k s'] that by (auto simp: clients_step_def)
  have b: "clients_step ?cs (cameraClients (stopCameraStream k s'))" if "cameraClients s' = ?cs" for k s'
    using stopCameraStream_clients [of k s'] that clients_step_refl [of ?cs]
    by (auto simp: clients_step_def)
  show ?thesis
    unfolding stream_request_def Let_def
    by (auto intro!: a b simp: clients_step_refl split: option.splits)
qed

lemma kill_done_clients: "clients_step (cameraClients s) (cameraClients (kill_done e s))"
  by (auto simp: kill_done_def clients_step_def split: option.splits)

lemma cam_timer_callback_clients:
  "clients_step (cameraClients s) (cameraClients (cam_timer_callback cb s))"
proof (cases cb)
  case IdleStop
  then show ?thesis
    by (simp add: idle_stop_def Let_def clients_step_refl split: option.splits)
next
  case (ReleaseDelay k)
  then show ?thesis by (simp add: startCameraStream_clients clients_step_def)
next
  case (StartupCheck k)
  then show ?thesis using attach_viewer_clients [of k s]
    by (auto simp: startup_check_def clients_step_def)
qed

lemma cam_timer_clients: "clients_step (cameraClients s) (cameraClients (cam_timer_fires t s))"
proof (cases "map_of (camTimers s) t")
  case None
  then show ?thesis by (simp add: cam_timer_fires_def clients_step_refl)
next
  case (Some a)
  obtain d cb where a: "a = (d, cb)" by (cases a)
  show ?thesis
    using Some a cam_timer_callback_clients [of "s\<lparr>camTimers := filter (\<lambda>x. fst x \<noteq> t) (camTimers s)\<rparr>" cb]
    by (simp add: cam_timer_fires_def)
qed

lemma producer_exit_clients: "clients_step (cameraClients s) (cameraClients (producer_exit p s))"
  by (simp add: producer_exit_def camera_exit_handler_def clients_step_def)

lemma cleanup_clients:
  "cameraClients (cleanup i ui s) = filter (\<lambda>c. viewer_id c \<noteq> i) (cameraClients s)"
  by (simp add: cleanup_def Let_def)

lemma request_close_clients: "clients_step (cameraClients s) (cameraClients (request_close i s))"
  by (auto simp: request_close_def cleanup_clients clients_step_def
      split: option.splits)

lemma request_error_clients: "clients_step (cameraClients s) (cameraClients (request_error i s))"
  by (auto simp: request_error_def cleanup_clients clients_step_def
      split: option.splits)

lemma send_frame_twice: "send_frame g (send_frame f v) = send_frame f v"
  by (simp add: send_frame_def)

lemma frame_round_clients:
  "frame_round s = Some s' \<Longrightarrow> \<exists>f. cameraClients s' = map (send_frame f) (cameraClients s)"
  by (auto simp: frame_round_def Let_def split: option.splits)

lemma frame_loop_clients:
  "cameraClients (frame_loop s) = cameraClients s \<or>
   (\<exists>f. cameraClients (frame_loop s) = map (send_frame f) (cameraClients s))"
proof (induction s rule: frame_loop.induct)
  case (1 s)
  show ?case
  proof (cases "frame_round s")
    case None
    then show ?thesis by (simp add: frame_loop_idle)
  next
    case (Some s')
    have l: "frame_loop s = frame_loop s'" using Some frame_loop.simps [of s] by simp
    from frame_round_clients [OF Some] obtain f where f: "cameraClients s' = map (send_frame f) (cameraClients s)"
      by blast
    from 1 [OF Some] show ?thesis
      unfolding l f by (auto simp: send_frame_twice)
  qed
qed

lemma broadcastFrame_clients:
  "cameraClients (broadcastFrame c s) = cameraClients s \<or>
   (\<exists>f. cameraClients (broadcastFrame c s) = map (send_frame f) (cameraClients s))"
  using frame_loop_clients [of "s\<lparr>frameBuffer := frameBuffer s @ c\<rparr>"]
  by (simp add: broadcastFrame_def)

lemma just_attached_ok: "just_attached v \<Longrightarrow> viewer_ok v"
  by (auto simp: just_attached_def viewer_ok_def split: if_splits)

lemma send_frame_ok: "viewer_ok v \<Longrightarrow> viewer_ok (send_frame f v)"
  by (auto simp: send_frame_def viewer_ok_def)

lemma clients_step_ok:
  "clients_step cs cs' \<Longrightarrow> list_all viewer_ok cs \<Longrightarrow> list_all viewer_ok cs'"
  by (auto simp: clients_step_def list_all_iff just_attached_ok)

lemma cam_step_ok:
  assumes "list_all viewer_ok (cameraClients s)"
  shows "list_all viewer_ok (cameraClients (cam_step s e))"
proof (cases e)
  case (ProducerData c)
  then show ?thesis using assms broadcastFrame_clients [of c s]
    by (auto simp: list_all_iff send_frame_ok)
next
  case (WriteDone i)
  then show ?thesis using assms
    by (auto simp: write_done_def list_all_iff viewer_ok_def)
qed (use assms in \<open>auto intro: clients_step_ok [OF _ assms] simp: stream_request_clients kill_done_clients
      cam_timer_clients producer_exit_clients request_close_clients request_error_clients\<close>)

lemma cam_foldl_ok:
  "list_all viewer_ok (cameraClients s) \<Longrightarrow> list_all viewer_ok (cameraClients (foldl cam_step s evs))"
  by (induction evs arbitrary: s) (simp_all add: cam_step_ok)

lemma cam_run_ok: "list_all viewer_ok (cameraClients (cam_run evs))"
  unfolding cam_run_def by (rule cam_foldl_ok) (simp add: cam_boot_def)

lemma clients_step_idle:
  assumes "clients_step cs cs'" "v' \<in> set cs'" "\<not> busy v'"
  shows "v' \<in> set cs \<or> (written v' = [] \<and> outstanding v' = 0)"
  using assms by (auto simp: clients_step_def just_attached_def split: if_splits)

lemma cam_step_clients_step:
  assumes "\<And>c. e \<noteq> ProducerData c" "\<And>i. e \<noteq> WriteDone i"
  shows "clients_step (cameraClients s) (cameraClients (cam_step s e))"
proof (cases e)
  case (ProducerData c)
  with assms(1) show ?thesis by blast
next
  case (WriteDone i)
  with assms(2) show ?thesis by blast
qed (simp_all add: stream_request_clients kill_done_clients
      cam_timer_clients producer_exit_clients request_close_clients request_error_clients)

lemma broadcastFrame_viewers:
  "\<exists>g. cameraClients (broadcastFrame c s) = map g (cameraClients s) \<and>
       (\<forall>v. busy v \<longrightarrow> g v = v) \<and>
       (\<forall>v. \<not> busy v \<longrightarrow> g v = v \<or>
          (\<exists>f. g v = v\<lparr>busy := True,
                        written := written v @ [Header (length f), Body f, Crlf],
                        outstanding := outstanding v + 1\<rparr>))"
  using broadcastFrame_clients [of c s]
proof
  assume "cameraClients (broadcastFrame c s) = cameraClients s"
  then show ?thesis by (intro exI [of _ "\<lambda>v. v"]) simp
next
  assume "\<exists>f. cameraClients (broadcastFrame c s) = map (send_frame f) (cameraClients s)"
  then obtain f where "cameraClients (broadcastFrame c s) = map (send_frame f) (cameraClients s)" ..
  then show ?thesis
    by (intro exI [of _ "send_frame f"]) (auto simp: send_frame_def)
qed

lemma busy_cleared_only_by_write_done:
  assumes "\<And>i. e \<noteq> WriteDone i" "v' \<in> set (cameraClients (cam_step s e))" "\<not> busy v'"
  shows "v' \<in> set (cameraClients s) \<or> (written v' = [] \<and> outstanding v' = 0)"
proof (cases "\<exists>c. e = ProducerData c")
  case True
  then obtain c where e: "e = ProducerData c" ..
  from broadcastFrame_clients [of c s]
  have "\<exists>g. cameraClients (broadcastFrame c s) = map g (cameraClients s) \<and>
          (\<forall>v. busy v \<longrightarrow> g v = v) \<and> (\<forall>v. \<not> busy v \<longrightarrow> g v = v \<or> busy (g v))"
  proof
    assume "cameraClients (broadcastFrame c s) = cameraClients s"
    then show ?thesis by (intro exI [of _ "\<lambda>v. v"]) simp
  next
    assume "\<exists>f. cameraClients (broadcastFrame c s) = map (send_frame f) (cameraClients s)"
    then obtain f where "cameraClients (broadcastFrame c s) = map (send_frame f) (cameraClients s)" ..
    then show ?thesis by (intro exI [of _ "send_frame f"]) (simp add: send_frame_def)
  qed
  then obtain g where
    g: "cameraClients (broadcastFrame c s) = map g (cameraClients s)"
       "\<And>v. busy v \<Longrightarrow> g v = v"
       "\<And>v. \<not> busy v \<Longrightarrow> g v = v \<or> busy (g v)"
    by blast
  from assms(2) e g(1) obtain v where v: "v \<in> set (cameraClients s)" "v' = g v" by auto
  with g(2) [of v] g(3) [of v] assms(3) show ?thesis by (cases "busy v") auto
next
  case False
  then have "clients_step (cameraClients s) (cameraClients (cam_step s e))"
    using assms(1) by (intro cam_step_clients_step) auto
  from clients_step_idle [OF this assms(2,3)] show ?thesis .
qed

text \<open>
  C6. In every run of the camera part, every attached viewer has at most one frame write
  under way and its busy flag is set exactly while it has one, so frame writes to one
  viewer never overlap. In a broadcast, a viewer that is busy is left exactly as it was
  (nothing written, nothing queued); a viewer that is not busy is left alone or gets the
  three writes of one frame with its flag set. No event other than the completion of a
  final write clears a busy flag: after any other event a viewer that is not busy was
  already so and is unchanged, or has just been attached with nothing written.
\<close>

theorem viewer_backpressure:
  "(\<forall>v \<in> set (cameraClients (cam_run evs)). outstanding v \<le> 1 \<and> busy v = (outstanding v = 1)) \<and>
   (\<exists>g. cameraClients (broadcastFrame c s) = map g (cameraClients s) \<and>
        (\<forall>v. busy v \<longrightarrow> g v = v) \<and>
        (\<forall>v. \<not> busy v \<longrightarrow> g v = v \<or>
           (\<exists>f. g v = v\<lparr>busy := True,
                         written := written v @ [Header (length f), Body f, Crlf],
                         outstanding := outstanding v + 1\<rparr>))) \<and>
   ((\<forall>i. e \<noteq> WriteDone i) \<longrightarrow>
      (\<forall>v' \<in> set (cameraClients (cam_step s e)). \<not> busy v' \<longrightarrow>
          v' \<in> set (cameraClients s) \<or> (written v' = [] \<and> outstanding v' = 0)))"
proof (intro conjI)
  show "\<forall>v \<in> set (cameraClients (cam_run evs)). outstanding v \<le> 1 \<and> busy v = (outstanding v = 1)"
    using cam_run_ok [of evs] by (simp add: list_all_iff viewer_ok_def)
  show "\<exists>g. cameraClients (broadcastFrame c s) = map g (cameraClients s) \<and>
        (\<forall>v. busy v \<longrightarrow> g v = v) \<and>
        (\<forall>v. \<not> busy v \<longrightarrow> g v = v \<or>
           (\<exists>f. g v = v\<lparr>busy := True,
                         written := written v @ [Header (length f), Body f, Crlf],
                         outstanding := outstanding v + 1\<rparr>))"
    by (rule broadcastFrame_viewers)
  show "(\<forall>i. e \<noteq> WriteDone i) \<longrightarrow>
      (\<forall>v' \<in> set (cameraClients (cam_step s e)). \<not> busy v' \<longrightarrow>
          v' \<in> set (cameraClients s) \<or> (written v' = [] \<and> outstanding v' = 0))"
    using busy_cleared_only_by_write_done [of e _ s] by blast
qed

theorem viewer_backpressure_witness:
  "cameraClients (cam_run [ui_request (Some ''low''), CamTimerFires 0, ProducerData (jpegA @ jpegB)]) =
     [\<lparr>viewer_id = 0, busy = True, written = [Header 7, Body jpegA, Crlf], outstanding = 1\<rparr>] \<and>
   outstanding (hd (cameraClients
     (cam_run [ui_request (Some ''low''), CamTimerFires 0, ProducerData (jpegA @ jpegB)]))) \<le> 1"
proof -
  let ?evs = "[ui_request (Some ''low''), CamTimerFires 0, ProducerData (jpegA @ jpegB)]"
  have c: "cameraClients (cam_run ?evs) =
     [\<lparr>viewer_id = 0, busy = True, written = [Header 7, Body jpegA, Crlf], outstanding = 1\<rparr>]"
    by code_simp
  then have m: "hd (cameraClients (cam_run ?evs)) \<in> set (cameraClients (cam_run ?evs))" by simp
  from viewer_backpressure [of ?evs "[]" cam_boot "KillDone 0"]
  have "\<forall>v \<in> set (cameraClients (cam_run ?evs)). outstanding v \<le> 1 \<and> busy v = (outstanding v = 1)"
    by (rule conjunct1)
  from bspec [OF this m] c show ?thesis by simp
qed

section \<open>The stream lifecycle\<close>

lemma lifecycle_frame_round: "frame_round s = Some s' \<Longrightarrow> lifecycle s' = lifecycle s"
  by (auto simp: frame_round_def lifecycle_def Let_def split: option.splits)

lemma lifecycle_frame_loop: "lifecycle (frame_loop s) = lifecycle s"
proof (induction s rule: frame_loop.induct)
  case (1 s)
  show ?case
  proof (cases "frame_round s")
    case None
    then show ?thesis by (simp add: frame_loop_idle)
  next
    case (Some s')
    have "frame_loop s = frame_loop s'" using Some frame_loop.simps [of s] by simp
    with 1 [OF Some] lifecycle_frame_round [OF Some] show ?thesis by simp
  qed
qed

lemma lifecycle_traffic: "frame_traffic e \<Longrightarrow> lifecycle (cam_step s e) = lifecycle s"
proof (cases e)
  case (ProducerData c)
  have "lifecycle (s\<lparr>frameBuffer := frameBuffer s @ c\<rparr>) = lifecycle s" by (simp add: lifecycle_def)
  then show ?thesis using ProducerData lifecycle_frame_loop [of "s\<lparr>frameBuffer := frameBuffer s @ c\<rparr>"]
    by (simp add: broadcastFrame_def)
next
  case (WriteDone i)
  then show ?thesis by (simp add: write_done_def lifecycle_def)
qed (simp_all add: frame_traffic_def)

lemma lifecycle_attach: "lifecycle (attach_viewer k s) = lifecycle (attach_viewer k (lifecycle s))"
  by (simp add: attach_viewer_def lifecycle_def Let_def)

lemma lifecycle_start: "lifecycle (startCameraStream k s) = lifecycle (startCameraStream k (lifecycle s))"
  by (simp add: startCameraStream_def lifecycle_def Let_def)

lemma lifecycle_stop: "lifecycle (stopCameraStream k s) = lifecycle (stopCameraStream k (lifecycle s))"
proof -
  have a: "isProcessRunning (lifecycle s) p = isProcessRunning s p" for p
    by (cases p) (simp_all add: isProcessRunning_def lifecycle_def)
  show ?thesis
  proof (cases "\<not> isProcessRunning s (pidFile s) \<and> cameraProcess s = None")
    case True
    then have "stopCameraStream k s = startCameraStream k s"
      "stopCameraStream k (lifecycle s) = startCameraStream k (lifecycle s)"
      using a by (simp_all add: stopCameraStream_def lifecycle_def)
    then show ?thesis using lifecycle_start by simp
  next
    case False
    then show ?thesis using a [of "pidFile s"]
      by (cases "cameraProcess s") (simp_all add: stopCameraStream_def lifecycle_def Let_def)
  qed
qed

lemma lifecycle_idem: "lifecycle (lifecycle s) = lifecycle s"
  by (simp add: lifecycle_def)

lemma running_lifecycle: "isProcessRunning (lifecycle s) p = isProcessRunning s p"
  by (cases p) (simp_all add: isProcessRunning_def lifecycle_def)

lemma lifecycle_fields:
  "cameraProcess (lifecycle s) = cameraProcess s" "pidFile (lifecycle s) = pidFile s"
  "currentQuality (lifecycle s) = currentQuality s" "cameraIdleTimer (lifecycle s) = cameraIdleTimer s"
  "camTimers (lifecycle s) = camTimers s" "camNextReq (lifecycle s) = camNextReq s"
  "uiStreamClients (lifecycle s) = uiStreamClients s" "camLog (lifecycle s) = camLog s"
  "replies (lifecycle s) = replies s" "connections (lifecycle s) = connections s"
  "killsPending (lifecycle s) = killsPending s" "camNextTimer (lifecycle s) = camNextTimer s"
  "running (lifecycle s) = running s"
  by (simp_all add: lifecycle_def)

lemma lifecycle_upd:
  "lifecycle (s\<lparr>camNextReq := a\<rparr>) = (lifecycle s)\<lparr>camNextReq := a\<rparr>"
  "lifecycle (s\<lparr>camTimers := b, cameraIdleTimer := c\<rparr>) = (lifecycle s)\<lparr>camTimers := b, cameraIdleTimer := c\<rparr>"
  "lifecycle (s\<lparr>replies := d\<rparr>) = (lifecycle s)\<lparr>replies := d\<rparr>"
  "lifecycle (s\<lparr>camTimers := b\<rparr>) = (lifecycle s)\<lparr>camTimers := b\<rparr>"
  "lifecycle (s\<lparr>cameraIdleTimer := c\<rparr>) = (lifecycle s)\<lparr>cameraIdleTimer := c\<rparr>"
  "lifecycle (s\<lparr>camLog := l\<rparr>) = (lifecycle s)\<lparr>camLog := l\<rparr>"
  "lifecycle (s\<lparr>running := r\<rparr>) = (lifecycle s)\<lparr>running := r\<rparr>"
  by (simp_all add: lifecycle_def)

lemma running_upd:
  "isProcessRunning (s\<lparr>camNextReq := a\<rparr>) p = isProcessRunning s p"
  "isProcessRunning (s\<lparr>camTimers := b\<rparr>) p = isProcessRunning s p"
  "isProcessRunning (s\<lparr>cameraIdleTimer := c\<rparr>) p = isProcessRunning s p"
  by (cases p; simp add: isProcessRunning_def)+

lemma lifecycle_request: "lifecycle (stream_request r s) = lifecycle (stream_request r (lifecycle s))"
proof (cases "req_tracker r")
  case True
  define s' where "s' = s\<lparr>camNextReq := camNextReq s + 1\<rparr>"
  define k where "k = \<lparr>parked_id = camNextReq s, parked_ui = False, parked_quality = []\<rparr>"
  define down where "down = (\<not> isProcessRunning s (pidFile s) \<or> cameraProcess s = None)"
  have r': "isProcessRunning s' p = isProcessRunning s p" for p
    by (cases p) (simp_all add: isProcessRunning_def s'_def)
  have l': "lifecycle s' = (lifecycle s)\<lparr>camNextReq := camNextReq s + 1\<rparr>"
    by (simp add: s'_def lifecycle_def)
  have e1: "stream_request r s =
              (if down then s'\<lparr>replies := replies s' @ [(camNextReq s, 503)]\<rparr> else attach_viewer k s')"
    using True by (simp add: stream_request_def Let_def s'_def k_def down_def running_upd)
  have e2: "stream_request r (lifecycle s) =
              (if down then (lifecycle s')\<lparr>replies := replies s' @ [(camNextReq s, 503)]\<rparr>
               else attach_viewer k (lifecycle s'))"
    using True
    by (simp add: stream_request_def Let_def s'_def lifecycle_upd lifecycle_fields k_def down_def
        running_lifecycle running_upd)
  show ?thesis
    unfolding e1 e2 using lifecycle_attach [of k s']
    by (simp add: lifecycle_idem lifecycle_upd lifecycle_attach [of k "lifecycle s'", symmetric])
next
  case False
  define s1 where "s1 = (case cameraIdleTimer s of
                        None \<Rightarrow> s\<lparr>camNextReq := camNextReq s + 1\<rparr>
                      | Some t \<Rightarrow> s\<lparr>camNextReq := camNextReq s + 1,
                                   camTimers := filter (\<lambda>x. fst x \<noteq> t) (camTimers s),
                                   cameraIdleTimer := None\<rparr>)"
  define k where "k = \<lparr>parked_id = camNextReq s, parked_ui = True,
                       parked_quality = requested_quality r (currentQuality s)\<rparr>"
  define restart where "restart = (cameraProcess s = None \<or> \<not> isProcessRunning s (pidFile s) \<or>
                                requested_quality r (currentQuality s) \<noteq> currentQuality s)"
  have cq: "currentQuality s1 = currentQuality s" "cameraProcess s1 = cameraProcess s"
    "pidFile s1 = pidFile s" "isProcessRunning s1 p = isProcessRunning s p" for p
    by (auto simp: s1_def isProcessRunning_def split: option.splits)
  have e1: "stream_request r s = (if restart then stopCameraStream k s1 else attach_viewer k s1)"
    using False
    by (auto simp: stream_request_def Let_def s1_def k_def restart_def isProcessRunning_def split: option.splits)
  have l1: "lifecycle s1 = (case cameraIdleTimer s of
                        None \<Rightarrow> (lifecycle s)\<lparr>camNextReq := camNextReq s + 1\<rparr>
                      | Some t \<Rightarrow> (lifecycle s)\<lparr>camNextReq := camNextReq s + 1,
                                   camTimers := filter (\<lambda>x. fst x \<noteq> t) (camTimers s),
                                   cameraIdleTimer := None\<rparr>)"
    by (simp add: s1_def lifecycle_def split: option.splits)
  have e2: "stream_request r (lifecycle s) =
              (if restart then stopCameraStream k (lifecycle s1) else attach_viewer k (lifecycle s1))"
    using False
    by (auto simp: stream_request_def Let_def l1 k_def restart_def lifecycle_fields running_lifecycle
        isProcessRunning_def split: option.splits)
  show ?thesis
    unfolding e1 e2 using lifecycle_stop [of k s1] lifecycle_attach [of k s1]
    by (simp add: lifecycle_idem lifecycle_stop [of k "lifecycle s1", symmetric]
        lifecycle_attach [of k "lifecycle s1", symmetric])
qed

lemma lifecycle_kill_done: "lifecycle (kill_done e s) = lifecycle (kill_done e (lifecycle s))"
  by (cases "map_of (killsPending s) e") (simp_all add: kill_done_def lifecycle_def)

lemma lifecycle_exit: "lifecycle (producer_exit p s) = lifecycle (producer_exit p (lifecycle s))"
  by (simp add: producer_exit_def camera_exit_handler_def lifecycle_def)

lemma lifecycle_cleanup: "lifecycle (cleanup i ui s) = lifecycle (cleanup i ui (lifecycle s))"
  by (simp add: cleanup_def lifecycle_def Let_def)

lemma lifecycle_close: "lifecycle (request_close i s) = lifecycle (request_close i (lifecycle s))"
proof (cases "map_of (connections s) i")
  case None
  then show ?thesis by (simp add: request_close_def lifecycle_fields lifecycle_idem)
next
  case (Some ui)
  have "lifecycle ((cleanup i ui s)\<lparr>connections := c\<rparr>) = (lifecycle (cleanup i ui s))\<lparr>connections := c\<rparr>" for c
    by (simp add: lifecycle_def)
  moreover have "lifecycle ((cleanup i ui (lifecycle s))\<lparr>connections := c\<rparr>) =
                 (lifecycle (cleanup i ui (lifecycle s)))\<lparr>connections := c\<rparr>" for c
    by (simp add: lifecycle_def)
  ultimately show ?thesis using Some lifecycle_cleanup [of i ui s]
    by (simp add: request_close_def lifecycle_fields)
qed

lemma lifecycle_error: "lifecycle (request_error i s) = lifecycle (request_error i (lifecycle s))"
proof (cases "map_of (connections s) i")
  case None
  then show ?thesis by (simp add: request_error_def lifecycle_fields lifecycle_idem)
next
  case (Some ui)
  then show ?thesis using lifecycle_cleanup [of i ui s]
    by (simp add: request_error_def lifecycle_fields)
qed

lemma lifecycle_idle_stop: "lifecycle (idle_stop s) = lifecycle (idle_stop (lifecycle s))"
  by (cases "cameraProcess s") (simp_all add: idle_stop_def Let_def lifecycle_def)

lemma lifecycle_startup_check:
  "lifecycle (startup_check k s) = lifecycle (startup_check k (lifecycle s))"
  using lifecycle_attach [of k s]
  by (simp add: startup_check_def running_lifecycle lifecycle_fields lifecycle_upd lifecycle_idem)

lemma lifecycle_callback:
  "lifecycle (cam_timer_callback cb s) = lifecycle (cam_timer_callback cb (lifecycle s))"
proof (cases cb)
  case IdleStop
  then show ?thesis using lifecycle_idle_stop [of s] by simp
next
  case (ReleaseDelay k)
  then show ?thesis using lifecycle_start [of k s] by simp
next
  case (StartupCheck k)
  then show ?thesis using lifecycle_startup_check [of k s] by simp
qed

lemma lifecycle_timer: "lifecycle (cam_timer_fires t s) = lifecycle (cam_timer_fires t (lifecycle s))"
proof (cases "map_of (camTimers s) t")
  case None
  then show ?thesis by (simp add: cam_timer_fires_def lifecycle_fields lifecycle_idem)
next
  case (Some a)
  obtain d cb where a: "a = (d, cb)" by (cases a)
  define s1 where "s1 = s\<lparr>camTimers := filter (\<lambda>x. fst x \<noteq> t) (camTimers s)\<rparr>"
  have l1: "(lifecycle s)\<lparr>camTimers := filter (\<lambda>x. fst x \<noteq> t) (camTimers s)\<rparr> = lifecycle s1"
    by (simp add: s1_def lifecycle_def)
  have "cam_timer_fires t s = cam_timer_callback cb s1"
    using Some a by (simp add: cam_timer_fires_def s1_def)
  moreover have "cam_timer_fires t (lifecycle s) = cam_timer_callback cb (lifecycle s1)"
    using Some a by (simp add: cam_timer_fires_def lifecycle_fields l1)
  ultimately show ?thesis using lifecycle_callback [of cb s1] by simp
qed

lemma lifecycle_step:
  "\<not> frame_traffic e \<Longrightarrow> lifecycle (cam_step s e) = lifecycle (cam_step (lifecycle s) e)"
proof (cases e)
  case (StreamRequest r)
  then show ?thesis using lifecycle_request [of r s] by simp
next
  case (KillDone k)
  then show ?thesis using lifecycle_kill_done [of k s] by simp
next
  case (CamTimerFires t)
  then show ?thesis using lifecycle_timer [of t s] by simp
next
  case (ProducerExit p)
  then show ?thesis using lifecycle_exit [of p s] by simp
next
  case (RequestClose i)
  then show ?thesis using lifecycle_close [of i s] by simp
next
  case (RequestError i)
  then show ?thesis using lifecycle_error [of i s] by simp
qed (simp_all add: frame_traffic_def)

lemma lifecycle_step_cong:
  assumes "\<not> frame_traffic e" "lifecycle s = lifecycle s'"
  shows "lifecycle (cam_step s e) = lifecycle (cam_step s' e)"
  using lifecycle_step [OF assms(1), of s] lifecycle_step [OF assms(1), of s'] assms(2) by simp

lemma lifecycle_foldl:
  "lifecycle s = lifecycle s' \<Longrightarrow>
   lifecycle (foldl cam_step s evs) =
   lifecycle (foldl cam_step s' (filter (\<lambda>e. \<not> frame_traffic e) evs))"
proof (induction evs arbitrary: s s')
  case Nil
  then show ?case by simp
next
  case (Cons e evs)
  show ?case
  proof (cases "frame_traffic e")
    case True
    then show ?thesis using Cons.IH [of "cam_step s e" s'] Cons.prems
      by (simp add: lifecycle_traffic)
  next
    case False
    from lifecycle_step_cong [OF False Cons.prems]
    show ?thesis using Cons.IH [of "cam_step s e" "cam_step s' e"] False by simp
  qed
qed

lemma lifecycle_run:
  "lifecycle (cam_run evs) = lifecycle (cam_run (filter (\<lambda>e. \<not> frame_traffic e) evs))"
proof -
  show ?thesis using lifecycle_foldl [of cam_boot cam_boot evs] by (simp add: cam_run_def)
qed

lemma requested_quality_nonempty: "requested_quality r c \<noteq> []"
  by (simp add: requested_quality_def Let_def)

lemma step1: "cam_step cam_boot (ui_request q) = after_first q"
  using requested_quality_nonempty [of "\<lparr>req_tracker = False, req_quality = q\<rparr>" "''low''"]
  by (simp add: ui_request_def cam_boot_def stream_request_def stopCameraStream_def startCameraStream_def
      isProcessRunning_def Let_def after_first_def first_quality_def)

lemma step2: "cam_step (after_first q) (CamTimerFires 0) =
   (after_first q)\<lparr>camTimers := [], uiStreamClients := 1, replies := [(0, 200)],
      cameraClients := [viewer0], connections := [(0, True)]\<rparr>"
  by (simp add: after_first_def cam_timer_fires_def startup_check_def attach_viewer_def
      isProcessRunning_def Let_def viewer0_def)

lemma step3: "cam_step ((after_first q)\<lparr>camTimers := [], uiStreamClients := 1, replies := [(0, 200)],
      cameraClients := [viewer0], connections := [(0, True)]\<rparr>) (RequestClose 0) =
   (after_first q)\<lparr>camTimers := [(1, CAMERA_IDLE_GRACE_MS, IdleStop)], uiStreamClients := 0,
      replies := [(0, 200)], cameraClients := [], connections := [],
      cameraIdleTimer := Some 1, camNextTimer := 2\<rparr>"
  by (simp add: after_first_def request_close_def cleanup_def Let_def viewer0_def)

lemma step4:
  assumes "same_quality q q'"
  shows "cam_step ((after_first q)\<lparr>camTimers := [(1, CAMERA_IDLE_GRACE_MS, IdleStop)], uiStreamClients := 0,
      replies := [(0, 200)], cameraClients := [], connections := [],
      cameraIdleTimer := Some 1, camNextTimer := 2\<rparr>) (ui_request q') =
   (after_first q)\<lparr>camTimers := [], uiStreamClients := 1,
      replies := [(0, 200), (1, 200)], cameraClients := [viewer1], connections := [(1, True)],
      cameraIdleTimer := None, camNextTimer := 2, camNextReq := 2\<rparr>"
  using assms
  by (simp add: after_first_def ui_request_def stream_request_def attach_viewer_def same_quality_def
      isProcessRunning_def Let_def viewer1_def)

lemma scenario_run:
  assumes "same_quality q q'"
  shows "cam_run [ui_request q, CamTimerFires 0, RequestClose 0, ui_request q'] =
   (after_first q)\<lparr>camTimers := [], uiStreamClients := 1,
      replies := [(0, 200), (1, 200)], cameraClients := [viewer1], connections := [(1, True)],
      cameraIdleTimer := None, camNextTimer := 2, camNextReq := 2\<rparr>"
  by (simp only: cam_run_def foldl.simps step1 step2 step3 step4 [OF assms])

lemma lifecycle_eq_fields:
  assumes "lifecycle s = lifecycle s'"
  shows "camLog s = camLog s'" "uiStreamClients s = uiStreamClients s'"
    "cameraProcess s = cameraProcess s'" "cameraIdleTimer s = cameraIdleTimer s'"
    "camTimers s = camTimers s'"
  using lifecycle_fields [of s] lifecycle_fields [of s'] assms by simp_all

text \<open>
  C5, as stated, fails: the viewer count goes 0, 1, 0, 1, the idle timer (handle 1) never
  fires, and still the producer is stopped and started a second time, because the viewer
  came back asking for another quality.
\<close>

theorem reattach_other_quality_counterexample:
  "map (\<lambda>n. uiStreamClients (cam_run (take n restart_example))) [0, 2, 3, 8] = [0, 1, 0, 1] \<and>
   cameraIdleTimer (cam_run (take 3 restart_example)) = Some 1 \<and>
   CamTimerFires 1 \<notin> set restart_example \<and>
   camLog (cam_run restart_example) =
     [Spawn 1 ''low'', Sigterm 1, ShellKill (Some 1), Spawn 2 ''high'']"
  by code_simp

text \<open>
  C5, amended. On a fresh server, let a UI viewer attach (the producer is spawned and
  passes its startup check), detach, and let a UI viewer attach again before the idle
  timer fires, asking for the quality that is active (or for none), with any frame traffic
  in between. Then the producer has been started exactly once and never been stopped, the
  viewer count went 0, 1, 0, 1, the re-attach cancelled the pending 5000 ms idle timer, and
  no timer firing afterwards changes anything. Whenever an idle timer does fire, it sends
  SIGTERM to the producer only if the viewer count is zero at that moment.
\<close>

theorem reattach_within_grace:
  assumes "filter (\<lambda>e. \<not> frame_traffic e) evs =
             [ui_request q, CamTimerFires 0, RequestClose 0, ui_request q']"
    and "same_quality q q'"
  shows "camLog (cam_run evs) = [Spawn 1 (pick_preset (first_quality q) ''low'')] \<and>
         uiStreamClients (cam_run evs) = 1 \<and>
         cameraProcess (cam_run evs) = Some 1 \<and>
         cameraIdleTimer (cam_run evs) = None \<and>
         camTimers (cam_run evs) = [] \<and>
         (\<forall>t. cam_step (cam_run evs) (CamTimerFires t) = cam_run evs) \<and>
         uiStreamClients (cam_run [ui_request q]) = 0 \<and>
         uiStreamClients (cam_run [ui_request q, CamTimerFires 0]) = 1 \<and>
         uiStreamClients (cam_run [ui_request q, CamTimerFires 0, RequestClose 0]) = 0 \<and>
         cameraIdleTimer (cam_run [ui_request q, CamTimerFires 0, RequestClose 0]) = Some 1 \<and>
         camTimers (cam_run [ui_request q, CamTimerFires 0, RequestClose 0]) =
           [(1, 5000, IdleStop)] \<and>
         (\<forall>s. uiStreamClients s \<noteq> 0 \<longrightarrow> camLog (idle_stop s) = camLog s) \<and>
         (\<forall>s h. uiStreamClients s = 0 \<and> cameraProcess s = Some h \<longrightarrow>
                camLog (idle_stop s) = camLog s @ [Sigterm h])"
proof -
  let ?end = "(after_first q)\<lparr>camTimers := [], uiStreamClients := 1,
      replies := [(0, 200), (1, 200)], cameraClients := [viewer1], connections := [(1, True)],
      cameraIdleTimer := None, camNextTimer := 2, camNextReq := 2\<rparr>"
  have "lifecycle (cam_run evs) = lifecycle ?end"
    using lifecycle_run [of evs] assms(1) scenario_run [OF assms(2)] by simp
  note f = lifecycle_eq_fields [OF this]
  have a: "camLog (cam_run evs) = [Spawn 1 (pick_preset (first_quality q) ''low'')]"
    "uiStreamClients (cam_run evs) = 1" "cameraProcess (cam_run evs) = Some 1"
    "cameraIdleTimer (cam_run evs) = None" "camTimers (cam_run evs) = []"
    unfolding f by (simp_all add: after_first_def)
  have b: "cam_step (cam_run evs) (CamTimerFires t) = cam_run evs" for t
    by (simp add: cam_timer_fires_def a(5))
  have c: "cam_run [ui_request q] = after_first q"
    "cam_run [ui_request q, CamTimerFires 0] =
       (after_first q)\<lparr>camTimers := [], uiStreamClients := 1, replies := [(0, 200)],
          cameraClients := [viewer0], connections := [(0, True)]\<rparr>"
    "cam_run [ui_request q, CamTimerFires 0, RequestClose 0] =
       (after_first q)\<lparr>camTimers := [(1, CAMERA_IDLE_GRACE_MS, IdleStop)], uiStreamClients := 0,
          replies := [(0, 200)], cameraClients := [], connections := [],
          cameraIdleTimer := Some 1, camNextTimer := 2\<rparr>"
    by (simp_all only: cam_run_def foldl.simps step1 step2 step3)
  have d: "uiStreamClients s \<noteq> 0 \<Longrightarrow> camLog (idle_stop s) = camLog s" for s
    by (simp add: idle_stop_def Let_def split: option.splits)
  have e: "uiStreamClients s = 0 \<and> cameraProcess s = Some h \<Longrightarrow>
           camLog (idle_stop s) = camLog s @ [Sigterm h]" for s h
    by (simp add: idle_stop_def Let_def)
  show ?thesis
    using a b d e unfolding c by (simp add: after_first_def CAMERA_IDLE_GRACE_MS_def)
qed

lemma reattach_example_traffic:
  "filter (\<lambda>e. \<not> frame_traffic e) reattach_example =
     [ui_request (Some ''Low''), CamTimerFires 0, RequestClose 0, ui_request None]"
  by (simp add: reattach_example_def frame_traffic_def ui_request_def)

lemma reattach_example_quality: "same_quality (Some ''Low'') None"
  by code_simp

lemma reattach_example_preset: "pick_preset (first_quality (Some ''Low'')) ''low'' = ''low''"
  by code_simp

theorem reattach_within_grace_witness:
  "camLog (cam_run reattach_example) = [Spawn 1 ''low''] \<and>
   uiStreamClients (cam_run reattach_example) = 1 \<and>
   camTimers (cam_run reattach_example) = []"
  using reattach_within_grace [OF reattach_example_traffic reattach_example_quality]
  by (simp add: reattach_example_preset)

section \<open>Producer exit\<close>

text \<open>
  C9, as stated, fails: with one UI viewer attached, the producer exits; the viewer set is
  cleared but the UI viewer count is still 1.
\<close>

theorem producer_exit_count_counterexample:
  "1 \<in> set (running one_viewer) \<and> uiStreamClients one_viewer = 1 \<and>
   cameraClients (cam_step one_viewer (ProducerExit 1)) = [] \<and>
   uiStreamClients (cam_step one_viewer (ProducerExit 1)) = 1"
  by code_simp

text \<open>
  C9, amended. Whenever the producer process exits, its exit handler drops the process
  handle and the pid file, clears all live viewers and resets the frame buffer and the
  latest frame. The UI viewer count, the idle timer and the open requests are left as they
  are: the count changes only when a UI request attaches or ends.
\<close>

theorem producer_exit_effect:
  assumes "pid \<in> set (running s)"
  shows "cameraProcess (producer_exit pid s) = None \<and>
         pidFile (producer_exit pid s) = None \<and>
         cameraClients (producer_exit pid s) = [] \<and>
         frameBuffer (producer_exit pid s) = [] \<and>
         latestFrame (producer_exit pid s) = None \<and>
         pid \<notin> set (running (producer_exit pid s)) \<and>
         uiStreamClients (producer_exit pid s) = uiStreamClients s \<and>
         cameraIdleTimer (producer_exit pid s) = cameraIdleTimer s \<and>
         camTimers (producer_exit pid s) = camTimers s \<and>
         connections (producer_exit pid s) = connections s \<and>
         camLog (producer_exit pid s) = camLog s"
  using assms by (simp add: producer_exit_def camera_exit_handler_def)

lemma one_viewer_running: "1 \<in> set (running one_viewer)"
  by code_simp

lemma one_viewer_count: "uiStreamClients one_viewer = 1"
  by code_simp

theorem producer_exit_effect_witness:
  "cameraClients (producer_exit 1 one_viewer) = [] \<and>
   cameraProcess (producer_exit 1 one_viewer) = None \<and>
   uiStreamClients (producer_exit 1 one_viewer) = 1"
  using producer_exit_effect [OF one_viewer_running] one_viewer_count by simp

section \<open>The motion-tracking controller\<close>

lemma issue_fields:
  "servoFile (snd (issue c s)) = servoFile s"
  "servoTrackingEnabled (snd (issue c s)) = servoTrackingEnabled s"
  "awaiting (snd (issue c s)) = awaiting s"
  "motionTrackerMoveInFlight (snd (issue c s)) = motionTrackerMoveInFlight s"
  "fst (issue c s) = trkNextPromise s"
  "issued (snd (issue c s)) = issued s @ [(trkNextPromise s, c)]"
  "trkNextPromise (snd (issue c s)) = trkNextPromise s + 1"
  by (simp_all add: issue_def)

lemma servoSetCmd_fields:
  "servoFile (snd (servoSetCmd ch a s)) = servoFile s"
  "servoTrackingEnabled (snd (servoSetCmd ch a s)) = servoTrackingEnabled s"
  "awaiting (snd (servoSetCmd ch a s)) = awaiting s"
  "motionTrackerMoveInFlight (snd (servoSetCmd ch a s)) = motionTrackerMoveInFlight s"
  "issued (snd (servoSetCmd ch a s)) = issued s"
  "trkNextPromise (snd (servoSetCmd ch a s)) = trkNextPromise s"
  "fst (servoSetCmd ch a s) = SET ch a"
  by (simp_all add: servoSetCmd_def Let_def split: option.splits)

lemma refine_step_fields:
  "servoFile (refine_step m s) = servoFile s"
  "servoTrackingEnabled (refine_step m s) = servoTrackingEnabled s"
  "awaiting (refine_step m s) = awaiting s"
  "motionTrackerMoveInFlight (refine_step m s) = motionTrackerMoveInFlight s"
  "issued (refine_step m s) = issued s"
  by (simp_all add: refine_step_def)

lemma plan_move_fields:
  assumes "plan_move m s = (cmds, h, v, s2)"
  shows "servoFile s2 = servoFile s" "servoTrackingEnabled s2 = servoTrackingEnabled s"
    "awaiting s2 = awaiting s" "motionTrackerMoveInFlight s2 = motionTrackerMoveInFlight s"
    "set cmds \<subseteq> fst ` set (issued s2)"
    "\<exists>new. issued s2 = issued s @ new"
    "cmds = [] \<Longrightarrow> issued s2 = issued s"
  using assms
  by (auto simp: plan_move_def Let_def issue_fields servoSetCmd_fields split_beta image_iff
      split: if_splits)

lemma loop_effect_refl: "loop_effect s s"
  by (simp add: loop_effect_def)

lemma loop_effect_cong:
  assumes "loop_effect t x" "servoFile t = servoFile s"
    "servoTrackingEnabled t = servoTrackingEnabled s" "issued t = issued s"
    "awaiting t = awaiting s" "motionTrackerMoveInFlight t = motionTrackerMoveInFlight s"
  shows "loop_effect s x"
  using assms unfolding loop_effect_def by simp

lemma handle_lines_effect: "loop_effect s (handle_lines s ms)"
proof (induction ms arbitrary: s)
  case Nil
  then show ?case by (simp add: loop_effect_refl)
next
  case (Cons a ms)
  show ?case
  proof (cases a)
    case None
    then show ?thesis using Cons by simp
  next
    case (Some m)
    show ?thesis
    proof (cases "msg_ready m \<or> msg_error m \<or> \<not> msg_active m \<or> \<not> servoTrackingEnabled s \<or>
                  motionTrackerMoveInFlight s")
      case True
      then have "handle_lines s (a # ms) = handle_lines s ms" using Some by auto
      then show ?thesis using Cons by simp
    next
      case False
      obtain cmds h v s2 where pm: "plan_move m s = (cmds, h, v, s2)"
        by (cases "plan_move m s") auto
      note f = plan_move_fields [OF pm]
      show ?thesis
      proof (cases "cmds = []")
        case True
        then have e: "handle_lines s (a # ms) = handle_lines (refine_step m s2) ms"
          using Some False pm by simp
        show ?thesis
          unfolding e
          by (rule loop_effect_cong [OF Cons]) (simp_all add: refine_step_fields f True)
      next
        case ne: False
        let ?k = "\<lparr>aw_cmds = cmds, aw_waiting = cmds, aw_newH = h, aw_newV = v,
                    aw_msg = m, aw_rest = ms\<rparr>"
        have e: "handle_lines s (a # ms) =
                 s2\<lparr>motionTrackerMoveInFlight := True, awaiting := awaiting s2 @ [?k]\<rparr>"
          using Some False pm ne f(2) by simp
        show ?thesis
          unfolding e loop_effect_def using False f ne by auto
      qed
    qed
  qed
qed

lemma guard_ok_loop:
  assumes "guard_ok s" "loop_effect s s'"
  shows "guard_ok s'"
proof (cases "motionTrackerMoveInFlight s")
  case True
  with assms show ?thesis unfolding guard_ok_def loop_effect_def by auto
next
  case False
  with assms(1) have "awaiting s = []" by (auto simp: guard_ok_def)
  with assms(2) False show ?thesis unfolding guard_ok_def loop_effect_def by auto
qed

lemma guard_ok_resume_ok:
  assumes "awaiting s = []"
  shows "guard_ok (resume_ok k s)"
proof -
  define s2 where "s2 = refine_step (aw_msg k)
    ((if servoTrackingEnabled s
      then s\<lparr>servoFile := writeServoState (aw_newH k) (aw_newV k),
             trkLog := trkLog s @ [Persist (aw_newH k) (aw_newV k)]\<rparr>
      else s)\<lparr>motionTrackerMoveInFlight := False\<rparr>)"
  have "guard_ok s2" using assms by (simp add: s2_def guard_ok_def refine_step_fields)
  moreover have "resume_ok k s = handle_lines s2 (aw_rest k)"
    by (simp add: resume_ok_def s2_def Let_def)
  ultimately show ?thesis using guard_ok_loop [OF _ handle_lines_effect] by simp
qed

lemma guard_ok_resume_failed:
  assumes "awaiting s = []"
  shows "guard_ok (resume_failed k s)"
proof -
  define s2 where "s2 = refine_step (aw_msg k)
    (s\<lparr>trkLog := trkLog s @ [ServoError], motionTrackerMoveInFlight := False\<rparr>)"
  have "guard_ok s2" using assms by (simp add: s2_def guard_ok_def refine_step_fields)
  moreover have "resume_failed k s = handle_lines s2 (aw_rest k)"
    by (simp add: resume_failed_def s2_def Let_def)
  ultimately show ?thesis using guard_ok_loop [OF _ handle_lines_effect] by simp
qed

lemma guard_ok_cong:
  "awaiting t = awaiting s \<Longrightarrow> motionTrackerMoveInFlight t = motionTrackerMoveInFlight s \<Longrightarrow>
   guard_ok t = guard_ok s"
  by (simp add: guard_ok_def)

lemma guard_ok_resolved:
  assumes "guard_ok s"
  shows "guard_ok (cmd_resolved p s)"
proof (cases "awaiting s")
  case Nil
  then have "cmd_resolved p s = s\<lparr>awaiting := []\<rparr>" by (simp add: cmd_resolved_def)
  then show ?thesis using assms Nil by (simp add: guard_ok_def)
next
  case (Cons k ks)
  with assms have ks: "ks = []" and fl: "motionTrackerMoveInFlight s" by (auto simp: guard_ok_def)
  show ?thesis
  proof (cases "p \<in> set (aw_waiting k)")
    case False
    then have "cmd_resolved p s = s\<lparr>awaiting := [k]\<rparr>"
      using Cons ks by (simp add: cmd_resolved_def)
    then show ?thesis using fl by (simp add: guard_ok_def)
  next
    case True
    show ?thesis
    proof (cases "removeAll p (aw_waiting k) = []")
      case r: True
      then have "cmd_resolved p s = resume_ok k (s\<lparr>awaiting := []\<rparr>)"
        using Cons ks True by (simp add: cmd_resolved_def)
      then show ?thesis using guard_ok_resume_ok [of "s\<lparr>awaiting := []\<rparr>" k] by simp
    next
      case r: False
      then have "cmd_resolved p s = s\<lparr>awaiting := [k\<lparr>aw_waiting := removeAll p (aw_waiting k)\<rparr>]\<rparr>"
        using Cons ks True by (simp add: cmd_resolved_def)
      then show ?thesis using fl by (simp add: guard_ok_def)
    qed
  qed
qed

lemma guard_ok_rejected:
  assumes "guard_ok s"
  shows "guard_ok (cmd_rejected p s)"
proof (cases "awaiting s")
  case Nil
  then have "cmd_rejected p s = s\<lparr>awaiting := []\<rparr>" by (simp add: cmd_rejected_def)
  then show ?thesis using assms Nil by (simp add: guard_ok_def)
next
  case (Cons k ks)
  with assms have ks: "ks = []" and fl: "motionTrackerMoveInFlight s" by (auto simp: guard_ok_def)
  show ?thesis
  proof (cases "p \<in> set (aw_waiting k)")
    case False
    then have "cmd_rejected p s = s\<lparr>awaiting := [k]\<rparr>"
      using Cons ks by (simp add: cmd_rejected_def)
    then show ?thesis using fl by (simp add: guard_ok_def)
  next
    case True
    then have "cmd_rejected p s = resume_failed k (s\<lparr>awaiting := []\<rparr>)"
      using Cons ks by (simp add: cmd_rejected_def)
    then show ?thesis using guard_ok_resume_failed [of "s\<lparr>awaiting := []\<rparr>" k] by simp
  qed
qed

lemma guard_ok_step:
  assumes "guard_ok s" "is_stop e \<longrightarrow> awaiting s = []"
  shows "guard_ok (trk_step s e)"
proof (cases e)
  case (TrackerData ms)
  then show ?thesis using guard_ok_loop [OF assms(1) handle_lines_effect] by simp
next
  case (CmdResolved p)
  then show ?thesis using guard_ok_resolved [OF assms(1)] by simp
next
  case (CmdRejected p)
  then show ?thesis using guard_ok_rejected [OF assms(1)] by simp
next
  case StopTracking
  then show ?thesis using assms
    by (simp add: is_stop_def stopMotionTracking_def guard_ok_def Let_def split: option.splits)
next
  case TrackerSpawnError
  then show ?thesis using assms
    by (simp add: is_stop_def stopMotionTracking_def guard_ok_def Let_def split: option.splits)
next
  case StartTracking
  then show ?thesis using assms(1)
    by (simp add: startMotionTracking_def guard_ok_def split: option.splits)
next
  case (OffTimerFires t)
  then show ?thesis using assms(1)
    by (simp add: off_timer_fires_def guard_ok_def issue_def)
qed (use assms(1) in \<open>simp_all add: guard_ok_def tracker_exit_def\<close>)

lemma guard_ok_foldl:
  "guard_ok s \<Longrightarrow> quiet_stops s evs \<Longrightarrow> guard_ok (foldl trk_step s evs)"
  by (induction evs arbitrary: s) (simp_all add: guard_ok_step)

lemma guard_ok_run: "quiet_stops trk_boot evs \<Longrightarrow> guard_ok (trk_run evs)"
  unfolding trk_run_def by (rule guard_ok_foldl) (simp_all add: guard_ok_def trk_boot_def)

lemma no_move_while_awaiting:
  assumes "quiet_stops trk_boot evs" "awaiting (trk_run evs) \<noteq> []"
  shows "issued (trk_step (trk_run evs) (TrackerData ms)) = issued (trk_run evs)"
proof -
  from guard_ok_run [OF assms(1)] assms(2) have "motionTrackerMoveInFlight (trk_run evs)"
    by (simp add: guard_ok_def)
  with handle_lines_effect [of "trk_run evs" ms] show ?thesis
    by (simp add: loop_effect_def)
qed

lemma handle_lines_file:
  "servoFile (handle_lines s ms) = servoFile s"
  "servoTrackingEnabled (handle_lines s ms) = servoTrackingEnabled s"
  using handle_lines_effect [of s ms] by (simp_all add: loop_effect_def)

lemma resume_ok_file:
  "servoFile (resume_ok k s) =
     (if servoTrackingEnabled s then writeServoState (aw_newH k) (aw_newV k) else servoFile s)"
  "servoTrackingEnabled (resume_ok k s) = servoTrackingEnabled s"
  by (simp_all add: resume_ok_def Let_def handle_lines_file refine_step_fields)

lemma resume_failed_file:
  "servoFile (resume_failed k s) = servoFile s"
  "servoTrackingEnabled (resume_failed k s) = servoTrackingEnabled s"
  by (simp_all add: resume_failed_def Let_def handle_lines_file refine_step_fields)

lemma fold_resume_ok_file:
  "servoTrackingEnabled (fold resume_ok ks s) = servoTrackingEnabled s \<and>
   (servoFile (fold resume_ok ks s) = servoFile s \<or>
    (servoTrackingEnabled s \<and>
     (\<exists>k \<in> set ks. servoFile (fold resume_ok ks s) = writeServoState (aw_newH k) (aw_newV k))))"
proof (induction ks arbitrary: s)
  case Nil
  then show ?case by simp
next
  case (Cons k ks)
  from Cons [of "resume_ok k s"] show ?case
    by (auto simp: resume_ok_file split: if_splits)
qed

lemma fold_resume_failed_file:
  "servoFile (fold resume_failed ks s) = servoFile s"
  by (induction ks arbitrary: s) (simp_all add: resume_failed_file)

lemma cmd_rejected_file: "servoFile (cmd_rejected p s) = servoFile s"
  by (simp add: cmd_rejected_def Let_def fold_resume_failed_file)

lemma cmd_resolved_file:
  assumes "servoFile (cmd_resolved p s) \<noteq> servoFile s"
  shows "servoTrackingEnabled s \<and>
         (\<exists>k \<in> set (awaiting s). set (aw_waiting k) = {p} \<and>
            servoFile (cmd_resolved p s) = writeServoState (aw_newH k) (aw_newV k))"
proof -
  define ready where "ready = filter (\<lambda>k. p \<in> set (aw_waiting k) \<and> removeAll p (aw_waiting k) = []) (awaiting s)"
  define still where "still = map (\<lambda>k. if p \<in> set (aw_waiting k) then k\<lparr>aw_waiting := removeAll p (aw_waiting k)\<rparr> else k)
                    (filter (\<lambda>k. \<not> (p \<in> set (aw_waiting k) \<and> removeAll p (aw_waiting k) = [])) (awaiting s))"
  have e: "cmd_resolved p s = fold resume_ok ready (s\<lparr>awaiting := still\<rparr>)"
    by (simp add: cmd_resolved_def Let_def ready_def still_def)
  have r: "k \<in> set ready \<Longrightarrow> k \<in> set (awaiting s) \<and> set (aw_waiting k) = {p}" for k
  proof -
    assume "k \<in> set ready"
    then have k: "k \<in> set (awaiting s)" "p \<in> set (aw_waiting k)" "removeAll p (aw_waiting k) = []"
      by (simp_all add: ready_def)
    from k(3) have "set (aw_waiting k) - {p} = {}" by (metis set_removeAll set_empty)
    with k(1,2) show ?thesis by auto
  qed
  from fold_resume_ok_file [of ready "s\<lparr>awaiting := still\<rparr>"] assms e r
  show ?thesis by auto
qed

lemma off_timer_file: "servoFile (off_timer_fires t s) = servoFile s"
  by (simp add: off_timer_fires_def issue_def)

lemma step_file:
  assumes "\<And>f. e \<noteq> FileWritten f" "servoFile (trk_step s e) \<noteq> servoFile s"
  shows "servoTrackingEnabled s \<and>
         (\<exists>p. e = CmdResolved p \<and>
            (\<exists>k \<in> set (awaiting s). set (aw_waiting k) = {p} \<and>
               servoFile (trk_step s e) = writeServoState (aw_newH k) (aw_newV k)))"
proof (cases e)
  case (CmdResolved p)
  then show ?thesis using cmd_resolved_file [of p s] assms(2) by simp
next
  case (FileWritten f)
  then show ?thesis using assms(1) by simp
qed (use assms(2) in \<open>simp_all add: handle_lines_file cmd_rejected_file off_timer_file
      stopMotionTracking_def startMotionTracking_def tracker_exit_def Let_def split: option.splits\<close>)

lemma parked_ok_mono:
  "parked_ok acks iss k \<Longrightarrow> acks \<subseteq> acks' \<Longrightarrow> set iss \<subseteq> set iss' \<Longrightarrow> parked_ok acks' iss' k"
  unfolding parked_ok_def by (meson image_mono subset_eq)

lemma parked_ok_strike:
  assumes "parked_ok acks iss k"
  shows "parked_ok (insert p acks) iss (k\<lparr>aw_waiting := removeAll p (aw_waiting k)\<rparr>)"
  using assms unfolding parked_ok_def by auto

lemma parked_ok_fresh:
  "aw_waiting k = aw_cmds k \<Longrightarrow> aw_cmds k \<noteq> [] \<Longrightarrow> set (aw_cmds k) \<subseteq> fst ` set iss \<Longrightarrow>
   parked_ok acks iss k"
  by (simp add: parked_ok_def)

lemma acked_ok_loop:
  assumes "acked_ok acks s" "loop_effect s s'"
  shows "acked_ok acks s'"
proof -
  from assms(2) obtain new where n: "issued s' = issued s @ new" by (auto simp: loop_effect_def)
  then have sub: "set (issued s) \<subseteq> set (issued s')" by simp
  have old: "k \<in> set (awaiting s) \<Longrightarrow> parked_ok acks (issued s') k" for k
    using assms(1) parked_ok_mono [OF _ subset_refl sub] by (simp add: acked_ok_def)
  from assms(2) consider "awaiting s' = awaiting s"
    | k where "awaiting s' = awaiting s @ [k]" "aw_waiting k = aw_cmds k" "aw_cmds k \<noteq> []"
        "set (aw_cmds k) \<subseteq> fst ` set (issued s')"
    by (auto simp: loop_effect_def)
  then show ?thesis
  proof cases
    case 1
    then show ?thesis using old by (simp add: acked_ok_def)
  next
    case 2
    then show ?thesis using old parked_ok_fresh [OF 2(2,3,4)] by (auto simp: acked_ok_def)
  qed
qed

lemma acked_ok_cong:
  "awaiting t = awaiting s \<Longrightarrow> issued t = issued s \<Longrightarrow> acked_ok acks t = acked_ok acks s"
  by (simp add: acked_ok_def)

lemma acked_ok_resume_ok: "acked_ok acks s \<Longrightarrow> acked_ok acks (resume_ok k s)"
proof -
  assume a: "acked_ok acks s"
  define s2 where "s2 = refine_step (aw_msg k)
    ((if servoTrackingEnabled s
      then s\<lparr>servoFile := writeServoState (aw_newH k) (aw_newV k),
             trkLog := trkLog s @ [Persist (aw_newH k) (aw_newV k)]\<rparr>
      else s)\<lparr>motionTrackerMoveInFlight := False\<rparr>)"
  have "acked_ok acks s2" using a acked_ok_cong [of s2 s acks] by (simp add: s2_def refine_step_fields)
  moreover have "resume_ok k s = handle_lines s2 (aw_rest k)"
    by (simp add: resume_ok_def s2_def Let_def)
  ultimately show ?thesis using acked_ok_loop [OF _ handle_lines_effect] by simp
qed

lemma acked_ok_resume_failed: "acked_ok acks s \<Longrightarrow> acked_ok acks (resume_failed k s)"
proof -
  assume a: "acked_ok acks s"
  define s2 where "s2 = refine_step (aw_msg k)
    (s\<lparr>trkLog := trkLog s @ [ServoError], motionTrackerMoveInFlight := False\<rparr>)"
  have "acked_ok acks s2" using a acked_ok_cong [of s2 s acks] by (simp add: s2_def refine_step_fields)
  moreover have "resume_failed k s = handle_lines s2 (aw_rest k)"
    by (simp add: resume_failed_def s2_def Let_def)
  ultimately show ?thesis using acked_ok_loop [OF _ handle_lines_effect] by simp
qed

lemma acked_ok_fold_ok: "acked_ok acks s \<Longrightarrow> acked_ok acks (fold resume_ok ks s)"
  by (induction ks arbitrary: s) (simp_all add: acked_ok_resume_ok)

lemma acked_ok_fold_failed: "acked_ok acks s \<Longrightarrow> acked_ok acks (fold resume_failed ks s)"
  by (induction ks arbitrary: s) (simp_all add: acked_ok_resume_failed)

lemma acked_ok_grow:
  assumes "awaiting t = awaiting s" "set (issued s) \<subseteq> set (issued t)" "acked_ok acks s"
  shows "acked_ok acks t"
  unfolding acked_ok_def
proof
  fix k assume "k \<in> set (awaiting t)"
  then have "parked_ok acks (issued s) k" using assms(1,3) by (simp add: acked_ok_def)
  from parked_ok_mono [OF this subset_refl assms(2)] show "parked_ok acks (issued t) k" .
qed

lemma acked_ok_mono:
  assumes "acked_ok acks s" "acks \<subseteq> acks'"
  shows "acked_ok acks' s"
  unfolding acked_ok_def
proof
  fix k assume "k \<in> set (awaiting s)"
  then have "parked_ok acks (issued s) k" using assms(1) by (simp add: acked_ok_def)
  from parked_ok_mono [OF this assms(2) subset_refl] show "parked_ok acks' (issued s) k" .
qed

lemma acked_ok_resolved:
  assumes "acked_ok acks s"
  shows "acked_ok (insert p acks) (cmd_resolved p s)"
proof -
  define still where "still = map (\<lambda>k. if p \<in> set (aw_waiting k) then k\<lparr>aw_waiting := removeAll p (aw_waiting k)\<rparr> else k)
                    (filter (\<lambda>k. \<not> (p \<in> set (aw_waiting k) \<and> removeAll p (aw_waiting k) = [])) (awaiting s))"
  have "acked_ok (insert p acks) (s\<lparr>awaiting := still\<rparr>)"
    using assms parked_ok_strike [of acks "issued s" _ p]
      parked_ok_mono [of acks "issued s" _ "insert p acks" "issued s"]
    unfolding acked_ok_def still_def by auto
  moreover have "cmd_resolved p s =
      fold resume_ok (filter (\<lambda>k. p \<in> set (aw_waiting k) \<and> removeAll p (aw_waiting k) = []) (awaiting s))
        (s\<lparr>awaiting := still\<rparr>)"
    by (simp add: cmd_resolved_def Let_def still_def)
  ultimately show ?thesis by (simp add: acked_ok_fold_ok)
qed

lemma acked_ok_rejected:
  assumes "acked_ok acks s"
  shows "acked_ok acks (cmd_rejected p s)"
proof -
  have "acked_ok acks (s\<lparr>awaiting := filter (\<lambda>k. p \<notin> set (aw_waiting k)) (awaiting s)\<rparr>)"
    using assms unfolding acked_ok_def by auto
  then show ?thesis
    unfolding cmd_rejected_def Let_def by (rule acked_ok_fold_failed)
qed

lemma acked_ok_step:
  assumes "acked_ok (acks_of evs) s"
  shows "acked_ok (acks_of (evs @ [e])) (trk_step s e)"
proof -
  have m: "acks_of evs \<subseteq> acks_of (evs @ [e])" by (auto simp: acks_of_def)
  show ?thesis
  proof (cases e)
    case (TrackerData ms)
    then show ?thesis using acked_ok_loop [OF acked_ok_mono [OF assms m] handle_lines_effect] by simp
  next
    case (CmdResolved p)
    have "acks_of (evs @ [e]) = insert p (acks_of evs)" using CmdResolved by (auto simp: acks_of_def)
    then show ?thesis using acked_ok_resolved [OF assms, of p] CmdResolved by simp
  next
    case (CmdRejected p)
    then show ?thesis using acked_ok_rejected [OF acked_ok_mono [OF assms m]] by simp
  next
    case (OffTimerFires t)
    have "awaiting (off_timer_fires t s) = awaiting s"
      "set (issued s) \<subseteq> set (issued (off_timer_fires t s))"
      by (auto simp: off_timer_fires_def issue_def)
    from acked_ok_grow [OF this acked_ok_mono [OF assms m]] OffTimerFires show ?thesis by simp
  next
    case StopTracking
    then show ?thesis using acked_ok_mono [OF assms m]
      by (auto simp: acked_ok_def stopMotionTracking_def Let_def split: option.splits)
  next
    case TrackerSpawnError
    then show ?thesis using acked_ok_mono [OF assms m]
      by (auto simp: acked_ok_def stopMotionTracking_def Let_def split: option.splits)
  next
    case StartTracking
    then show ?thesis using acked_ok_mono [OF assms m]
      by (auto simp: acked_ok_def startMotionTracking_def split: option.splits)
  qed (use acked_ok_mono [OF assms m] in \<open>simp_all add: acked_ok_def tracker_exit_def\<close>)
qed

lemma acked_ok_run: "acked_ok (acks_of evs) (trk_run evs)"
proof (induction evs rule: rev_induct)
  case Nil
  then show ?case by (simp add: acked_ok_def trk_run_def trk_boot_def)
next
  case (snoc e evs)
  then show ?case using acked_ok_step [of evs "trk_run evs" e] by (simp add: trk_run_def)
qed


text \<open>
  What the controller does guarantee. In every run, a step that changes the persisted
  position (other than another route writing the file) is the acknowledgment of a servo
  command with \<open>servoTrackingEnabled\<close> set at that moment; it resumes a parked handler all
  of whose issued commands have by then been acknowledged, and writes that handler's
  target. A rejected promise never changes the file, and with \<open>servoTrackingEnabled\<close>
  clear no step of the controller does. In a run in which the controller is never stopped
  while a move awaits its acknowledgment, a detection event issues no command while a
  handler is parked.
\<close>

theorem persist_after_ack:
  "(let s = trk_run evs; s' = trk_step s e in
      (\<forall>f. e \<noteq> FileWritten f) \<and> servoFile s' \<noteq> servoFile s \<longrightarrow>
        servoTrackingEnabled s \<and>
        (\<exists>p k. e = CmdResolved p \<and> k \<in> set (awaiting s) \<and> aw_cmds k \<noteq> [] \<and>
               set (aw_cmds k) \<subseteq> fst ` set (issued s) \<and>
               (\<forall>q \<in> set (aw_cmds k). CmdResolved q \<in> set (evs @ [e])) \<and>
               servoFile s' = writeServoState (aw_newH k) (aw_newV k))) \<and>
   servoFile (trk_step t (CmdRejected r)) = servoFile t \<and>
   (\<not> servoTrackingEnabled t \<and> (\<forall>f. e \<noteq> FileWritten f) \<longrightarrow> servoFile (trk_step t e) = servoFile t) \<and>
   (quiet_stops trk_boot evs \<and> awaiting (trk_run evs) \<noteq> [] \<longrightarrow>
      issued (trk_step (trk_run evs) (TrackerData ms)) = issued (trk_run evs))"
proof (intro conjI)
  show "let s = trk_run evs; s' = trk_step s e in
      (\<forall>f. e \<noteq> FileWritten f) \<and> servoFile s' \<noteq> servoFile s \<longrightarrow>
        servoTrackingEnabled s \<and>
        (\<exists>p k. e = CmdResolved p \<and> k \<in> set (awaiting s) \<and> aw_cmds k \<noteq> [] \<and>
               set (aw_cmds k) \<subseteq> fst ` set (issued s) \<and>
               (\<forall>q \<in> set (aw_cmds k). CmdResolved q \<in> set (evs @ [e])) \<and>
               servoFile s' = writeServoState (aw_newH k) (aw_newV k))"
    unfolding Let_def
  proof (intro impI, elim conjE)
    let ?s = "trk_run evs"
    assume nf: "\<forall>f. e \<noteq> FileWritten f" and ch: "servoFile (trk_step ?s e) \<noteq> servoFile ?s"
    from step_file [OF _ ch] nf obtain p k where
      en: "servoTrackingEnabled ?s" and e: "e = CmdResolved p" and k: "k \<in> set (awaiting ?s)"
      and w: "set (aw_waiting k) = {p}"
      and f: "servoFile (trk_step ?s e) = writeServoState (aw_newH k) (aw_newV k)"
      by blast
    from acked_ok_run [of evs] k have pk: "parked_ok (acks_of evs) (issued ?s) k"
      by (simp add: acked_ok_def)
    have "\<forall>q \<in> set (aw_cmds k). CmdResolved q \<in> set (evs @ [e])"
    proof
      fix q assume "q \<in> set (aw_cmds k)"
      with pk have "q \<in> set (aw_waiting k) \<or> q \<in> acks_of evs" by (simp add: parked_ok_def)
      with w e show "CmdResolved q \<in> set (evs @ [e])" by (auto simp: acks_of_def)
    qed
    with pk en e k f show "servoTrackingEnabled ?s \<and>
        (\<exists>p k. e = CmdResolved p \<and> k \<in> set (awaiting ?s) \<and> aw_cmds k \<noteq> [] \<and>
               set (aw_cmds k) \<subseteq> fst ` set (issued ?s) \<and>
               (\<forall>q \<in> set (aw_cmds k). CmdResolved q \<in> set (evs @ [e])) \<and>
               servoFile (trk_step ?s e) = writeServoState (aw_newH k) (aw_newV k))"
      unfolding parked_ok_def by blast
  qed
  show "servoFile (trk_step t (CmdRejected r)) = servoFile t"
    by (simp add: cmd_rejected_file)
  show "\<not> servoTrackingEnabled t \<and> (\<forall>f. e \<noteq> FileWritten f) \<longrightarrow> servoFile (trk_step t e) = servoFile t"
    using step_file [of e t] by blast
  show "quiet_stops trk_boot evs \<and> awaiting (trk_run evs) \<noteq> [] \<longrightarrow>
      issued (trk_step (trk_run evs) (TrackerData ms)) = issued (trk_run evs)"
    using no_move_while_awaiting [of evs ms] by blast
qed

lemma one_move_quiet: "quiet_stops trk_boot one_move"
  by code_simp

lemma one_move_awaiting: "awaiting (trk_run one_move) \<noteq> []"
  by code_simp

lemma one_move_issued: "issued (trk_run one_move) = [(0, SET 0 145), (1, SET 1 145)]"
  by code_simp

lemma one_move_acked:
  "servoFile (trk_step (trk_run (one_move @ [CmdResolved 0])) (CmdResolved 1)) = Contents (Num 145) (Num 145)"
  "servoFile (trk_run (one_move @ [CmdResolved 0])) = Contents (Num 135) (Num 135)"
  by code_simp+

theorem persist_after_ack_witness:
  "servoFile (trk_run (one_move @ [CmdResolved 0])) = Contents (Num 135) (Num 135) \<and>
   servoFile (trk_step (trk_run (one_move @ [CmdResolved 0])) (CmdResolved 1)) =
     Contents (Num 145) (Num 145) \<and>
   servoTrackingEnabled (trk_run (one_move @ [CmdResolved 0])) \<and>
   issued (trk_step (trk_run one_move) (TrackerData [detection 0 0])) =
     [(0, SET 0 145), (1, SET 1 145)]"
proof -
  note T = persist_after_ack [of "one_move @ [CmdResolved 0]" "CmdResolved 1" trk_boot 0 "[detection 0 0]"]
  note U = persist_after_ack [of one_move "CmdResolved 1" trk_boot 0 "[detection 0 0]"]
  from T one_move_acked have "servoTrackingEnabled (trk_run (one_move @ [CmdResolved 0]))"
    unfolding Let_def by simp
  moreover from U one_move_quiet one_move_awaiting
  have "issued (trk_step (trk_run one_move) (TrackerData [detection 0 0])) = issued (trk_run one_move)"
    by blast
  ultimately show ?thesis using one_move_acked one_move_issued by simp
qed

section \<open>The proportional step\<close>

lemma track_numbers:
  "track_raw (- (3 / 10)) = 21" "track_delta (- (3 / 10)) = 10" "track_target 100 (- (3 / 10)) = 110"
proof -
  have fl: "\<lfloor>(221::rat) / 2\<rfloor> = 110" by (rule floor_unique) simp_all
  show "track_raw (- (3 / 10)) = 21" by (simp add: track_raw_def TRACK_GAIN_def)
  then show "track_delta (- (3 / 10)) = 10" by (simp add: track_delta_def TRACK_MAX_STEP_def)
  then show "track_target 100 (- (3 / 10)) = 110"
    by (simp add: track_target_def Math_round_def SERVO_MIN_def SERVO_MAX_def fl)
qed

lemma track_bounds:
  "- 10 \<le> track_delta off \<and> track_delta off \<le> 10 \<and>
   0 \<le> track_target pos off \<and> track_target pos off \<le> 270 \<and> track_target pos off \<in> \<int>"
  by (auto simp: track_delta_def track_target_def TRACK_MAX_STEP_def SERVO_MIN_def SERVO_MAX_def
      Math_round_def max_def min_def)

text \<open>
  C7. With offset -0.3 (centroid at 0.2), gain 70 and step limit 10, the raw delta is 21,
  which would lead to 121; the delta is clamped to 10 and the target of an axis at 100 is
  110. A handler that runs with tracking enabled, no move in flight and the horizontal
  axis at 100 issues \<open>SET 0 110\<close> as its first command. Every delta lies within the step
  limit and every target is an integer within the axis range.
\<close>

theorem track_step_clamped:
  "track_raw (- (3 / 10)) = 21 \<and> 100 + track_raw (- (3 / 10)) = 121 \<and>
   track_delta (- (3 / 10)) = 10 \<and> track_target 100 (- (3 / 10)) = 110 \<and>
   (- 10 \<le> track_delta off \<and> track_delta off \<le> 10 \<and>
    0 \<le> track_target pos off \<and> track_target pos off \<le> 270 \<and> track_target pos off \<in> \<int>) \<and>
   (servoTrackingEnabled s \<and> \<not> motionTrackerMoveInFlight s \<and>
    horizontal (readServoState (servoFile s)) = 100 \<longrightarrow>
      take (Suc (length (issued s))) (issued (trk_step s (TrackerData (detection (1 / 5) y # ms)))) =
        issued s @ [(trkNextPromise s, SET SERVO_H_CHANNEL 110)])"
proof (intro conjI impI)
  assume a: "servoTrackingEnabled s \<and> \<not> motionTrackerMoveInFlight s \<and>
    horizontal (readServoState (servoFile s)) = 100"
  define m where "m = \<lparr>msg_ready = False, msg_error = False, msg_active = True,
     msg_cx = 1 / 5, msg_cy = y, msg_refine = False\<rparr>"
  obtain cmds h v s2 where pm: "plan_move m s = (cmds, h, v, s2)"
    by (cases "plan_move m s") auto
  have off: "msg_cx m - 1 / 2 = - (3 / 10)" by (simp add: m_def)
  from pm a have i: "\<exists>rest. issued s2 = issued s @ (trkNextPromise s, SET SERVO_H_CHANNEL 110) # rest"
    and c: "cmds \<noteq> []"
    unfolding plan_move_def Let_def off
    by (auto simp: track_numbers issue_def servoSetCmd_def split_beta split: if_splits option.splits)
  have en: "servoTrackingEnabled s2" using plan_move_fields(2) [OF pm] a by simp
  have "issued (handle_lines s (Some m # ms)) = issued s2"
    using a pm c en by (simp add: m_def)
  with i show "take (Suc (length (issued s))) (issued (trk_step s (TrackerData (detection (1 / 5) y # ms)))) =
        issued s @ [(trkNextPromise s, SET SERVO_H_CHANNEL 110)]"
    by (auto simp: detection_def m_def)
qed (simp_all add: track_numbers track_bounds)

lemma at_100_state:
  "servoTrackingEnabled at_100" "\<not> motionTrackerMoveInFlight at_100"
  "horizontal (readServoState (servoFile at_100)) = 100" "issued at_100 = []" "trkNextPromise at_100 = 0"
  by code_simp+

lemma at_100_move: "issued (trk_step at_100 (TrackerData [detection (1 / 5) (1 / 2)])) = [(0, SET 0 110)]"
  by code_simp

theorem track_step_clamped_witness:
  "horizontal (readServoState (servoFile at_100)) = 100 \<and>
   issued (trk_step at_100 (TrackerData [detection (1 / 5) (1 / 2)])) = [(0, SET 0 110)] \<and>
   take 1 (issued (trk_step at_100 (TrackerData [detection (1 / 5) (1 / 2)]))) =
     [(0, SET SERVO_H_CHANNEL 110)]"
  using track_step_clamped [of 0 0 at_100 "1 / 2" "[]"] at_100_state at_100_move
  by simp

section \<open>Fire and cooldown\<close>






































































end
